theory Spec2Isabelle
  imports Complex_Main "HOL-Library.Word" "HOL-Library.AList" "HOL-Library.Signed_Division"
begin

unbundle bit_operations_syntax

section \<open>Go values\<close>

text \<open>
  The repository is a UDP packet-loss tester written in Go.  It exists in two protocol
  variants: the basic one (16-byte header, no server stamp, no late threshold) and the
  extended one (24-byte header with the server processing time, late threshold, net
  latency).  The embedding keeps the Go names for the extended variant and adds the
  suffix \<open>_basic\<close> for the basic variant.

  Go's \<open>uint64\<close> and \<open>int64\<close> are both 64-bit words; \<open>+\<close> and \<open>-\<close> wrap, the
  conversions \<open>uint64(x)\<close> and \<open>int64(x)\<close> keep the bit pattern, and an \<open>int64\<close> is read
  with \<open>sint\<close>.  Go's \<open>float64\<close> is idealised as \<open>real\<close>: rounding, infinities and NaN
  are not represented.  A run-time panic is a value of type \<open>panic\<close>.
\<close>

type_synonym byte = "8 word"
type_synonym uint64 = "64 word"
type_synonym int64 = "64 word"

datatype panic = MakeSliceLenOutOfRange | SliceBoundsOutOfRange | IndexOutOfRange

section \<open>Packet codec\<close>

subsection \<open>encoding/binary, big endian\<close>

text \<open>
  \<open>binary.BigEndian.PutUint64(b, v)\<close> stores \<open>byte(v >> 56)\<close> in \<open>b[0]\<close> down to
  \<open>byte(v)\<close> in \<open>b[7]\<close>; \<open>binary.BigEndian.Uint64(b)\<close> is
  \<open>uint64(b[7]) | uint64(b[6])<<8 | ... | uint64(b[0])<<56\<close>.
\<close>

definition be64 :: "uint64 \<Rightarrow> byte list" where
  "be64 v = [ucast (drop_bit 56 v), ucast (drop_bit 48 v), ucast (drop_bit 40 v),
             ucast (drop_bit 32 v), ucast (drop_bit 24 v), ucast (drop_bit 16 v),
             ucast (drop_bit 8 v), ucast v]"

definition Uint64 :: "byte list \<Rightarrow> uint64" where
  "Uint64 b = ucast (b ! 7) OR push_bit 8 (ucast (b ! 6)) OR push_bit 16 (ucast (b ! 5))
     OR push_bit 24 (ucast (b ! 4)) OR push_bit 32 (ucast (b ! 3))
     OR push_bit 40 (ucast (b ! 2)) OR push_bit 48 (ucast (b ! 1))
     OR push_bit 56 (ucast (b ! 0))"

text \<open>\<open>make([]byte, size)\<close>: a zero-filled buffer; a negative length panics.\<close>

definition make_bytes :: "int \<Rightarrow> panic + byte list" where
  "make_bytes sz =
     (if sz < 0 then Inl MakeSliceLenOutOfRange else Inr (replicate (nat sz) 0))"

text \<open>
  \<open>binary.BigEndian.PutUint64(buf[lo:lo+8], v)\<close>: the slice expression panics when the
  buffer is shorter than \<open>lo + 8\<close>; otherwise the eight bytes are written through the
  slice into the buffer.
\<close>

definition PutUint64 :: "byte list \<Rightarrow> nat \<Rightarrow> uint64 \<Rightarrow> panic + byte list" where
  "PutUint64 buf lo v =
     (if length buf < lo + 8 then Inl SliceBoundsOutOfRange
      else Inr (take lo buf @ be64 v @ drop (lo + 8) buf))"

text \<open>\<open>data[lo:hi]\<close> for \<open>lo \<le> hi \<le> len(data)\<close>.\<close>

definition slice :: "byte list \<Rightarrow> nat \<Rightarrow> nat \<Rightarrow> byte list" where
  "slice data lo hi = take (hi - lo) (drop lo data)"

subsection \<open>Basic variant: 16-byte header\<close>

definition SeqNumSize :: int where "SeqNumSize = 8"
definition TimestampSize :: int where "TimestampSize = 8"
definition ProcTimeSize :: int where "ProcTimeSize = 8"

definition HeaderSize_basic :: int where
  "HeaderSize_basic = SeqNumSize + TimestampSize"

record Packet_basic =
  PB_SeqNum :: uint64
  PB_Timestamp :: int64
  PB_Payload :: "byte list"

definition Encode_basic :: "Packet_basic \<Rightarrow> int \<Rightarrow> panic + byte list" where
  "Encode_basic p sz =
     (case make_bytes sz of
        Inl e \<Rightarrow> Inl e
      | Inr buf \<Rightarrow>
          (case PutUint64 buf 0 (PB_SeqNum p) of
             Inl e \<Rightarrow> Inl e
           | Inr buf1 \<Rightarrow> PutUint64 buf1 8 (PB_Timestamp p)))"

definition DecodePacket_basic :: "byte list \<Rightarrow> Packet_basic option" where
  "DecodePacket_basic data =
     (if int (length data) < HeaderSize_basic then None
      else Some \<lparr>PB_SeqNum = Uint64 (slice data 0 8),
                 PB_Timestamp = Uint64 (slice data 8 16),
                 PB_Payload = drop (nat HeaderSize_basic) data\<rparr>)"

subsection \<open>Extended variant: 24-byte header\<close>

definition HeaderSize :: int where
  "HeaderSize = SeqNumSize + TimestampSize + ProcTimeSize"

record Packet =
  P_SeqNum :: uint64
  P_Timestamp :: int64
  P_ServerProcNs :: int64
  P_Payload :: "byte list"

definition Encode :: "Packet \<Rightarrow> int \<Rightarrow> panic + byte list" where
  "Encode p sz =
     (case make_bytes sz of
        Inl e \<Rightarrow> Inl e
      | Inr buf \<Rightarrow>
          (case PutUint64 buf 0 (P_SeqNum p) of
             Inl e \<Rightarrow> Inl e
           | Inr buf1 \<Rightarrow>
               (case PutUint64 buf1 8 (P_Timestamp p) of
                  Inl e \<Rightarrow> Inl e
                | Inr buf2 \<Rightarrow> PutUint64 buf2 16 (P_ServerProcNs p))))"

definition DecodePacket :: "byte list \<Rightarrow> Packet option" where
  "DecodePacket data =
     (if int (length data) < HeaderSize then None
      else Some \<lparr>P_SeqNum = Uint64 (slice data 0 8),
                 P_Timestamp = Uint64 (slice data 8 16),
                 P_ServerProcNs = Uint64 (slice data 16 24),
                 P_Payload = drop (nat HeaderSize) data\<rparr>)"

section \<open>Statistics aggregator\<close>

text \<open>
  \<open>Stats\<close> is mutated under its mutex by every method; the embedding passes the state
  explicitly and returns the updated one.  The Go map \<open>records\<close> from sequence numbers to
  record pointers is an association list with distinct keys (\<open>map_of\<close> looks a key up,
  \<open>AList.update\<close> stores through the key and keeps the position of an existing entry), so
  that \<open>GetRecords\<close> can enumerate it; Go leaves the iteration order unspecified, the
  list order is one admissible order.  \<open>time.Now()\<close> is an input.
\<close>

definition MaxFloat64 :: real where
  "MaxFloat64 = (2 ^ 53 - 1) * 2 ^ 971"

definition Millisecond :: int where
  "Millisecond = 1000000"

subsection \<open>Extended variant\<close>

record PacketRecord =
  SeqNum :: uint64
  SentTime :: int64
  RecvTime :: int64
  LatencyMs :: real
  ServerProcMs :: real
  NetLatencyMs :: real
  Lost :: bool
  Late :: bool

record Stats =
  records :: "(uint64 \<times> PacketRecord) list"
  sent :: uint64
  received :: uint64
  late :: uint64
  lateThreshold :: real
  latencies :: "real list"
  netLatencies :: "real list"
  serverProc :: "real list"
  minLat :: real
  maxLat :: real
  sumLat :: real
  minNet :: real
  maxNet :: real
  sumNet :: real
  minServer :: real
  maxServer :: real
  sumServer :: real
  windowStartNs :: int64
  windowSent :: uint64
  windowReceived :: uint64
  windowLate :: uint64
  windowLatencies :: "real list"
  windowNetLatency :: "real list"
  windowServerProc :: "real list"
  lastPrintTime :: int64
  startTime :: int64

definition NewStats :: "real \<Rightarrow> int64 \<Rightarrow> Stats" where
  "NewStats threshold now =
     \<lparr>records = [], sent = 0, received = 0, late = 0, lateThreshold = threshold,
      latencies = [], netLatencies = [], serverProc = [],
      minLat = MaxFloat64, maxLat = 0, sumLat = 0,
      minNet = MaxFloat64, maxNet = 0, sumNet = 0,
      minServer = MaxFloat64, maxServer = 0, sumServer = 0,
      windowStartNs = now, windowSent = 0, windowReceived = 0, windowLate = 0,
      windowLatencies = [], windowNetLatency = [], windowServerProc = [],
      lastPrintTime = now, startTime = now\<rparr>"

definition RecordSent :: "Stats \<Rightarrow> uint64 \<Rightarrow> int64 \<Rightarrow> Stats" where
  "RecordSent s seqNum sentTime =
     s\<lparr>sent := sent s + 1,
       windowSent := windowSent s + 1,
       records := AList.update seqNum
          \<lparr>SeqNum = seqNum, SentTime = sentTime, RecvTime = 0, LatencyMs = 0,
           ServerProcMs = 0, NetLatencyMs = 0, Lost = True, Late = False\<rparr> (records s)\<rparr>"

definition RecordReceived :: "Stats \<Rightarrow> uint64 \<Rightarrow> int64 \<Rightarrow> int64 \<Rightarrow> Stats" where
  "RecordReceived s seqNum recvTime serverProcNs =
     (case map_of (records s) seqNum of
        None \<Rightarrow> s
      | Some rcd \<Rightarrow>
          if Lost rcd then
            (let latencyMs = real_of_int (sint (recvTime - SentTime rcd)) / real_of_int Millisecond;
                 serverProcMs = real_of_int (sint serverProcNs) / real_of_int Millisecond;
                 netLatency = latencyMs - serverProcMs;
                 netLatencyMs = (if netLatency < 0 then 0 else netLatency);
                 isLate = (latencyMs > lateThreshold s);
                 rcd' = rcd\<lparr>RecvTime := recvTime, LatencyMs := latencyMs,
                           ServerProcMs := serverProcMs, NetLatencyMs := netLatencyMs,
                           Lost := False, Late := (if isLate then True else Late rcd)\<rparr>;
                 inWindow = (sint (windowStartNs s) \<le> sint (SentTime rcd))
             in s\<lparr>records := AList.update seqNum rcd' (records s),
                  late := (if isLate then late s + 1 else late s),
                  received := received s + 1,
                  latencies := latencies s @ [latencyMs],
                  sumLat := sumLat s + latencyMs,
                  netLatencies := netLatencies s @ [netLatencyMs],
                  sumNet := sumNet s + netLatencyMs,
                  serverProc := serverProc s @ [serverProcMs],
                  sumServer := sumServer s + serverProcMs,
                  minLat := (if latencyMs < minLat s then latencyMs else minLat s),
                  maxLat := (if latencyMs > maxLat s then latencyMs else maxLat s),
                  minNet := (if netLatencyMs < minNet s then netLatencyMs else minNet s),
                  maxNet := (if netLatencyMs > maxNet s then netLatencyMs else maxNet s),
                  minServer := (if serverProcMs < minServer s then serverProcMs else minServer s),
                  maxServer := (if serverProcMs > maxServer s then serverProcMs else maxServer s),
                  windowReceived := (if inWindow then windowReceived s + 1 else windowReceived s),
                  windowLate := (if inWindow \<and> Late rcd' then windowLate s + 1 else windowLate s),
                  windowLatencies :=
                    (if inWindow then windowLatencies s @ [latencyMs] else windowLatencies s),
                  windowNetLatency :=
                    (if inWindow then windowNetLatency s @ [netLatencyMs] else windowNetLatency s),
                  windowServerProc :=
                    (if inWindow then windowServerProc s @ [serverProcMs]
                     else windowServerProc s)\<rparr>)
          else s)"

text \<open>\<open>GetRecords\<close> copies the record pointers out of the map.\<close>

definition GetRecords :: "Stats \<Rightarrow> PacketRecord list" where
  "GetRecords s = map snd (records s)"

subsection \<open>Summary statistics\<close>

text \<open>\<open>xs[i]\<close> on a slice: an index outside \<open>0 \<le> i < len(xs)\<close> panics.\<close>

definition index :: "real list \<Rightarrow> int \<Rightarrow> panic + real" where
  "index xs i =
     (if 0 \<le> i \<and> i < int (length xs) then Inr (xs ! nat i) else Inl IndexOutOfRange)"

definition percentile :: "real list \<Rightarrow> real \<Rightarrow> panic + real" where
  "percentile srt p =
     (if length srt = 0 then Inr 0
      else if p \<le> 0 then index srt 0
      else if p \<ge> 100 then index srt (int (length srt) - 1)
      else
        (let pos = (p / 100) * real_of_int (int (length srt) - 1);
             lower = \<lfloor>pos\<rfloor>;
             upper = \<lceil>pos\<rceil>
         in if lower = upper then index srt lower
            else
              (let weight = pos - real_of_int lower
               in case index srt lower of
                    Inl e \<Rightarrow> Inl e
                  | Inr a \<Rightarrow>
                      (case index srt upper of
                         Inl e \<Rightarrow> Inl e
                       | Inr b \<Rightarrow> Inr (a * (1 - weight) + b * weight)))))"

text \<open>\<open>sort.Float64s\<close> on a copy of the sample is \<open>sort\<close>.\<close>

definition percentiles ::
  "real list \<Rightarrow> real \<Rightarrow> real \<Rightarrow> real \<Rightarrow> panic + (real \<times> real \<times> real)" where
  "percentiles vals p50 p90 p99 =
     (if length vals = 0 then Inr (0, 0, 0)
      else
        (let srt = sort vals
         in case percentile srt p50 of
              Inl e \<Rightarrow> Inl e
            | Inr a \<Rightarrow>
                (case percentile srt p90 of
                   Inl e \<Rightarrow> Inl e
                 | Inr b \<Rightarrow>
                     (case percentile srt p99 of
                        Inl e \<Rightarrow> Inl e
                      | Inr c \<Rightarrow> Inr (a, b, c)))))"

text \<open>The loop \<open>for _, v := range values { jitterSum += math.Abs(v - avg) }\<close>.\<close>

definition jitterSum :: "real list \<Rightarrow> real \<Rightarrow> real" where
  "jitterSum vals mean = foldl (\<lambda>acc v. acc + \<bar>v - mean\<bar>) 0 vals"

definition calcStats :: "real list \<Rightarrow> real \<times> real \<times> real \<times> real" where
  "calcStats vals =
     (if length vals = 0 then (0, 0, 0, 0)
      else
        (let (total, mn, mx) =
               foldl (\<lambda>(total, mn, mx) v.
                        (total + v, (if v < mn then v else mn), (if v > mx then v else mx)))
                 (0, MaxFloat64, 0) vals;
             mean = total / real (length vals);
             jitter = jitterSum vals mean / real (length vals)
         in (mn, mean, mx, jitter)))"

definition avg :: "real list \<Rightarrow> real" where
  "avg vals = (if length vals = 0 then 0 else foldl (+) 0 vals / real (length vals))"

text \<open>
  \<open>PrintSummary\<close> writes lines to standard output; the embedding returns them, each line
  with the arguments of its \<open>Printf\<close> before formatting.
\<close>

datatype line =
    SummaryHeader
  | PacketsLine uint64 uint64 uint64 real uint64 real
  | LateThresholdLine real
  | RTTLine real real real real real real
  | JitterLine real
  | RTTNoData
  | NetClientLine real real real real real real
  | ServerProcLine real real real
  | ServerProcNoData

definition PrintSummary :: "Stats \<Rightarrow> panic + line list" where
  "PrintSummary s =
     (let lost = sent s - received s;
          lossPercent =
            (if sent s > 0 then real (unat lost) / real (unat (sent s)) * 100 else 0);
          latePercent =
            (if sent s > 0 then real (unat (late s)) / real (unat (sent s)) * 100 else 0);
          out1 = [SummaryHeader,
                  PacketsLine (sent s) (received s) lost lossPercent (late s) latePercent,
                  LateThresholdLine (lateThreshold s)];
          serverLines =
            (if length (serverProc s) > 0
             then [ServerProcLine (minServer s)
                     (sumServer s / real (length (serverProc s))) (maxServer s)]
             else [ServerProcNoData])
      in case (if length (latencies s) > 0
               then (let avgLat = sumLat s / real (length (latencies s));
                         jitter = jitterSum (latencies s) avgLat / real (length (latencies s))
                     in case percentiles (latencies s) 50 90 99 of
                          Inl e \<Rightarrow> Inl e
                        | Inr (p50, p90, p99) \<Rightarrow>
                            Inr [RTTLine (minLat s) avgLat (maxLat s) p50 p90 p99,
                                 JitterLine jitter])
               else Inr [RTTNoData]) of
           Inl e \<Rightarrow> Inl e
         | Inr rttLines \<Rightarrow>
             (case (if length (netLatencies s) > 0
                    then (case percentiles (netLatencies s) 50 90 99 of
                            Inl e \<Rightarrow> Inl e
                          | Inr (p50, p90, p99) \<Rightarrow>
                              Inr [NetClientLine (minNet s)
                                     (sumNet s / real (length (netLatencies s)))
                                     (maxNet s) p50 p90 p99])
                    else Inr []) of
                Inl e \<Rightarrow> Inl e
              | Inr netLines \<Rightarrow> Inr (out1 @ rttLines @ netLines @ serverLines)))"

subsection \<open>Basic variant\<close>

record PacketRecord_basic =
  B_SeqNum :: uint64
  B_SentTime :: int64
  B_RecvTime :: int64
  B_LatencyMs :: real
  B_Lost :: bool

record Stats_basic =
  b_records :: "(uint64 \<times> PacketRecord_basic) list"
  b_sent :: uint64
  b_received :: uint64
  b_latencies :: "real list"
  b_minLat :: real
  b_maxLat :: real
  b_sumLat :: real
  b_lastPrintTime :: int64
  b_startTime :: int64

definition NewStats_basic :: "int64 \<Rightarrow> int64 \<Rightarrow> Stats_basic" where
  "NewStats_basic now1 now2 =
     \<lparr>b_records = [], b_sent = 0, b_received = 0, b_latencies = [],
      b_minLat = MaxFloat64, b_maxLat = 0, b_sumLat = 0,
      b_lastPrintTime = now1, b_startTime = now2\<rparr>"

definition RecordSent_basic :: "Stats_basic \<Rightarrow> uint64 \<Rightarrow> int64 \<Rightarrow> Stats_basic" where
  "RecordSent_basic s seqNum sentTime =
     s\<lparr>b_sent := b_sent s + 1,
       b_records := AList.update seqNum
          \<lparr>B_SeqNum = seqNum, B_SentTime = sentTime, B_RecvTime = 0, B_LatencyMs = 0,
           B_Lost = True\<rparr> (b_records s)\<rparr>"

definition RecordReceived_basic :: "Stats_basic \<Rightarrow> uint64 \<Rightarrow> int64 \<Rightarrow> Stats_basic" where
  "RecordReceived_basic s seqNum recvTime =
     (case map_of (b_records s) seqNum of
        None \<Rightarrow> s
      | Some rcd \<Rightarrow>
          if B_Lost rcd then
            (let latencyMs =
                   real_of_int (sint (recvTime - B_SentTime rcd)) / real_of_int Millisecond;
                 rcd' = rcd\<lparr>B_RecvTime := recvTime, B_LatencyMs := latencyMs, B_Lost := False\<rparr>
             in s\<lparr>b_records := AList.update seqNum rcd' (b_records s),
                  b_received := b_received s + 1,
                  b_latencies := b_latencies s @ [latencyMs],
                  b_sumLat := b_sumLat s + latencyMs,
                  b_minLat := (if latencyMs < b_minLat s then latencyMs else b_minLat s),
                  b_maxLat := (if latencyMs > b_maxLat s then latencyMs else b_maxLat s)\<rparr>)
          else s)"

subsection \<open>Runs of the aggregator\<close>

text \<open>
  The sender and the receiver goroutines call \<open>RecordSent\<close> and \<open>RecordReceived\<close> under
  the mutex, so a run of the client is a sequence of such calls.
\<close>

datatype event = Sent uint64 int64 | Received uint64 int64 int64

fun step :: "Stats \<Rightarrow> event \<Rightarrow> Stats" where
  "step s (Sent seqNum sentTime) = RecordSent s seqNum sentTime"
| "step s (Received seqNum recvTime serverProcNs) = RecordReceived s seqNum recvTime serverProcNs"

definition run :: "Stats \<Rightarrow> event list \<Rightarrow> Stats" where
  "run s evs = foldl step s evs"

fun sent_seqs :: "event list \<Rightarrow> uint64 list" where
  "sent_seqs [] = []"
| "sent_seqs (Sent seqNum sentTime # evs) = seqNum # sent_seqs evs"
| "sent_seqs (Received seqNum recvTime serverProcNs # evs) = sent_seqs evs"

fun received_seqs :: "event list \<Rightarrow> uint64 list" where
  "received_seqs [] = []"
| "received_seqs (Sent seqNum sentTime # evs) = received_seqs evs"
| "received_seqs (Received seqNum recvTime serverProcNs # evs) = seqNum # received_seqs evs"

datatype event_basic = Sent_basic uint64 int64 | Received_basic uint64 int64

fun step_basic :: "Stats_basic \<Rightarrow> event_basic \<Rightarrow> Stats_basic" where
  "step_basic s (Sent_basic seqNum sentTime) = RecordSent_basic s seqNum sentTime"
| "step_basic s (Received_basic seqNum recvTime) = RecordReceived_basic s seqNum recvTime"

definition run_basic :: "Stats_basic \<Rightarrow> event_basic list \<Rightarrow> Stats_basic" where
  "run_basic s evs = foldl step_basic s evs"

fun sent_seqs_basic :: "event_basic list \<Rightarrow> uint64 list" where
  "sent_seqs_basic [] = []"
| "sent_seqs_basic (Sent_basic seqNum sentTime # evs) = seqNum # sent_seqs_basic evs"
| "sent_seqs_basic (Received_basic seqNum recvTime # evs) = sent_seqs_basic evs"

text \<open>The number of stored records that are resolved (\<open>Lost = false\<close>).\<close>

definition resolved :: "Stats \<Rightarrow> nat" where
  "resolved s = length (filter (\<lambda>kv. \<not> Lost (snd kv)) (records s))"

definition resolved_basic :: "Stats_basic \<Rightarrow> nat" where
  "resolved_basic s = length (filter (\<lambda>kv. \<not> B_Lost (snd kv)) (b_records s))"

section \<open>CSV export\<close>

text \<open>
  \<open>saveCSV\<close> writes the header and one row for each record of \<open>GetRecords\<close> through
  \<open>encoding/csv\<close>; the embedding returns the rows that are passed to \<open>writer.Write\<close> (a
  failure of \<open>os.Create\<close> is not modelled).  \<open>strconv.FormatUint\<close>, \<open>strconv.FormatInt\<close>
  (base 10) and \<open>strconv.FormatBool\<close> are written out; \<open>fmt.Sprintf("%.2f", x)\<close> stays
  symbolic as the cell \<open>Sprintf_2f x\<close>.
\<close>

datatype cell = Str string | Sprintf_2f real

definition digit :: "nat \<Rightarrow> char" where
  "digit d = ''0123456789'' ! d"

function decimal :: "nat \<Rightarrow> string" where
  "decimal n = (if n < 10 then [digit n] else decimal (n div 10) @ [digit (n mod 10)])"
  by pat_completeness auto
termination
  by (relation "measure id") auto

declare decimal.simps [simp del]

definition FormatUint :: "uint64 \<Rightarrow> string" where
  "FormatUint x = decimal (unat x)"

definition FormatInt :: "int64 \<Rightarrow> string" where
  "FormatInt x = (if sint x < 0 then ''-'' @ decimal (nat (- sint x)) else decimal (nat (sint x)))"

definition FormatBool :: "bool \<Rightarrow> string" where
  "FormatBool b = (if b then ''true'' else ''false'')"

text \<open>
  Go's \<open>/\<close> on \<open>int64\<close> truncates towards zero and wraps on overflow; a zero divisor
  panics, here the divisor is the constant 1000000.
\<close>

definition div_int64 :: "int64 \<Rightarrow> int64 \<Rightarrow> int64" where
  "div_int64 a b = word_of_int (sint a sdiv sint b)"

definition saveCSV_header :: "string list" where
  "saveCSV_header = [''seq'', ''sent_time'', ''recv_time'', ''latency_ms'', ''lost'', ''late'']"

definition saveCSV_row :: "PacketRecord \<Rightarrow> cell list" where
  "saveCSV_row r =
     [Str (FormatUint (SeqNum r)),
      Str (FormatInt (div_int64 (SentTime r) 1000000)),
      Str (FormatInt (div_int64 (RecvTime r) 1000000)),
      Sprintf_2f (LatencyMs r),
      Str (FormatBool (Lost r)),
      Str (FormatBool (Late r))]"

definition saveCSV :: "Stats \<Rightarrow> cell list list" where
  "saveCSV stats = map Str saveCSV_header # map saveCSV_row (GetRecords stats)"

definition GetRecords_basic :: "Stats_basic \<Rightarrow> PacketRecord_basic list" where
  "GetRecords_basic s = map snd (b_records s)"

definition saveCSV_header_basic :: "string list" where
  "saveCSV_header_basic = [''seq'', ''sent_time'', ''recv_time'', ''latency_ms'', ''lost'']"

definition saveCSV_row_basic :: "PacketRecord_basic \<Rightarrow> cell list" where
  "saveCSV_row_basic r =
     [Str (FormatUint (B_SeqNum r)),
      Str (FormatInt (div_int64 (B_SentTime r) 1000000)),
      Str (FormatInt (div_int64 (B_RecvTime r) 1000000)),
      Sprintf_2f (B_LatencyMs r),
      Str (FormatBool (B_Lost r))]"

definition saveCSV_basic :: "Stats_basic \<Rightarrow> cell list list" where
  "saveCSV_basic stats =
     map Str saveCSV_header_basic # map saveCSV_row_basic (GetRecords_basic stats)"


subsection \<open>The export of the extended variant\<close>

text \<open>
  Modelled from the spec: the \<open>saveCSV\<close> of the extended client, the one whose
  \<open>RecordReceived\<close> takes the server processing time, is missing; the two \<open>saveCSV\<close>
  functions above write five and six columns.  The spec gives the columns of the extended
  export: seq, sent_time, recv_time, latency_ms, lost and server_proc_ms, net_latency_ms,
  late, with the timestamps serialized in milliseconds since the epoch, one row for each
  record of \<open>GetRecords\<close>.  The cells of the six columns that the late-threshold
  \<open>saveCSV\<close> writes are formatted as there, and the two durations in milliseconds like
  latency_ms.
\<close>

definition saveCSV_extended :: "Stats \<Rightarrow> cell list list" where
  "saveCSV_extended stats =
     map Str [''seq'', ''sent_time'', ''recv_time'', ''latency_ms'', ''lost'',
              ''server_proc_ms'', ''net_latency_ms'', ''late''] #
     map (\<lambda>r. [Str (FormatUint (SeqNum r)),
                Str (FormatInt (div_int64 (SentTime r) 1000000)),
                Str (FormatInt (div_int64 (RecvTime r) 1000000)),
                Sprintf_2f (LatencyMs r),
                Str (FormatBool (Lost r)),
                Sprintf_2f (ServerProcMs r),
                Sprintf_2f (NetLatencyMs r),
                Str (FormatBool (Late r))])
       (GetRecords stats)"
section \<open>Plot generation\<close>

text \<open>
  \<open>GeneratePlot\<close> reads the CSV file with \<open>encoding/csv\<close>, which returns the rows as
  lists of strings and rejects a file whose rows differ in length from the first one, and
  substitutes the summary values and the JSON series into the HTML template.  The embedding
  starts from the rows and returns the substituted values before formatting.

  The CSV cells are arbitrary text, and \<open>strconv.ParseFloat\<close> can return infinities, NaN
  and a negative zero, which no real number stands for.  Here the type \<open>'f\<close> of \<open>float64\<close>
  values and the operations on it are therefore parameters, and so is \<open>strconv.ParseFloat\<close>,
  which returns a value together with the flag \<open>err == nil\<close>.  Go's \<open>int\<close> counters are
  integers.
\<close>

record 'f float64_ops =
  F_of_int :: "int \<Rightarrow> 'f"
  F_add :: "'f \<Rightarrow> 'f \<Rightarrow> 'f"
  F_div :: "'f \<Rightarrow> 'f \<Rightarrow> 'f"
  F_mul :: "'f \<Rightarrow> 'f \<Rightarrow> 'f"
  F_gt :: "'f \<Rightarrow> 'f \<Rightarrow> bool"

text \<open>The idealised arithmetic on the reals, for the examples.\<close>

definition real_ops :: "real float64_ops" where
  "real_ops = \<lparr>F_of_int = real_of_int, F_add = (+), F_div = (/), F_mul = (*),
                F_gt = (\<lambda>a b. b < a)\<rparr>"

datatype plot_error = NoDataRows | MissingColumn string

text \<open>
  The pieces of the JSON series: the separator and the three shapes of entry that the three
  versions of \<open>GeneratePlot\<close> write (\<open>seq, latency, lost\<close>; with \<open>recvTime\<close>; with
  \<open>recvTime\<close>, \<open>net\<close> and \<open>server\<close>, where \<open>None\<close> is \<open>null\<close>).
\<close>

datatype 'f json_item =
    Comma
  | EntrySeq string 'f bool
  | EntryRecv string string 'f bool
  | Entry string string 'f "'f option" "'f option" bool

record 'f report =
  TOTAL_PACKETS :: int
  LOSS_PERCENT :: 'f
  AVG_LATENCY :: 'f
  MAX_LATENCY :: 'f
  AVG_NET_LATENCY :: "'f option"
  AVG_SERVER_PROC :: "'f option"
  DATA_JSON :: "'f json_item list"

record 'f report_positional =
  TOTAL_PACKETS_p :: int
  LOSS_PERCENT_p :: 'f
  AVG_LATENCY_p :: 'f
  MAX_LATENCY_p :: 'f
  DATA_JSON_p :: "'f json_item list"

record 'f plot_acc =
  totalPackets :: int
  lostPackets :: int
  receivedCount :: int
  totalLatency :: 'f
  maxLatency :: 'f
  totalNet :: 'f
  totalServer :: 'f
  dataJSON :: "'f json_item list"

definition plot_acc0 :: "'f float64_ops \<Rightarrow> 'f plot_acc" where
  "plot_acc0 ops =
     \<lparr>totalPackets = 0, lostPackets = 0, receivedCount = 0, totalLatency = F_of_int ops 0,
      maxLatency = F_of_int ops 0, totalNet = F_of_int ops 0, totalServer = F_of_int ops 0,
      dataJSON = []\<rparr>"

subsection \<open>strings.TrimSpace\<close>

text \<open>
  \<open>strings.TrimSpace\<close> removes the leading and the trailing white space runes of a
  string; a string is a sequence of bytes in UTF-8.  The white space runes are U+0009 to
  U+000D, U+0020, U+0085, U+00A0, U+1680, U+2000 to U+200A, U+2028, U+2029, U+202F, U+205F
  and U+3000 (\<open>unicode.IsSpace\<close>); these are their encodings.  A rune is decoded from a
  prefix, or backwards from a suffix, exactly when its encoding is that prefix or suffix.
\<close>

definition white_space :: "string list" where
  "white_space =
     [[CHR 0x09], [CHR 0x0A], [CHR 0x0B], [CHR 0x0C], [CHR 0x0D], [CHR 0x20],
      [CHR 0xC2, CHR 0x85], [CHR 0xC2, CHR 0xA0],
      [CHR 0xE1, CHR 0x9A, CHR 0x80],
      [CHR 0xE2, CHR 0x80, CHR 0x80], [CHR 0xE2, CHR 0x80, CHR 0x81],
      [CHR 0xE2, CHR 0x80, CHR 0x82], [CHR 0xE2, CHR 0x80, CHR 0x83],
      [CHR 0xE2, CHR 0x80, CHR 0x84], [CHR 0xE2, CHR 0x80, CHR 0x85],
      [CHR 0xE2, CHR 0x80, CHR 0x86], [CHR 0xE2, CHR 0x80, CHR 0x87],
      [CHR 0xE2, CHR 0x80, CHR 0x88], [CHR 0xE2, CHR 0x80, CHR 0x89],
      [CHR 0xE2, CHR 0x80, CHR 0x8A],
      [CHR 0xE2, CHR 0x80, CHR 0xA8], [CHR 0xE2, CHR 0x80, CHR 0xA9],
      [CHR 0xE2, CHR 0x80, CHR 0xAF],
      [CHR 0xE2, CHR 0x81, CHR 0x9F],
      [CHR 0xE3, CHR 0x80, CHR 0x80]]"

definition leading_space :: "string \<Rightarrow> string option" where
  "leading_space s = find (\<lambda>w. take (length w) s = w) white_space"

definition trailing_space :: "string \<Rightarrow> string option" where
  "trailing_space s =
     find (\<lambda>w. length w \<le> length s \<and> drop (length s - length w) s = w) white_space"

function TrimLeft :: "string \<Rightarrow> string" where
  "TrimLeft s =
     (case leading_space s of None \<Rightarrow> s | Some w \<Rightarrow> TrimLeft (drop (length w) s))"
  by pat_completeness auto
termination
proof (relation "measure length")
  show "wf (measure length)" by simp
next
  fix s w :: string
  assume "leading_space s = Some w"
  then have "w \<in> set white_space" and p: "take (length w) s = w"
    by (auto simp: leading_space_def find_Some_iff)
  then have "w \<noteq> []" by (auto simp: white_space_def)
  then have "0 < length w" by simp
  moreover from p have "length (take (length w) s) = length w" by simp
  then have "length w \<le> length s" by simp
  ultimately have "length s - length w < length s" by linarith
  then show "(drop (length w) s, s) \<in> measure length" by simp
qed

function TrimRight :: "string \<Rightarrow> string" where
  "TrimRight s =
     (case trailing_space s of
        None \<Rightarrow> s
      | Some w \<Rightarrow> TrimRight (take (length s - length w) s))"
  by pat_completeness auto
termination
proof (relation "measure length")
  show "wf (measure length)" by simp
next
  fix s w :: string
  assume "trailing_space s = Some w"
  then have "w \<in> set white_space" and p: "length w \<le> length s"
    by (auto simp: trailing_space_def find_Some_iff)
  then have "w \<noteq> []" by (auto simp: white_space_def)
  then have "0 < length w" by simp
  with p have "length s - length w < length s" by linarith
  then show "(take (length s - length w) s, s) \<in> measure length" by simp
qed

declare TrimLeft.simps [simp del]
declare TrimRight.simps [simp del]

definition TrimSpace :: "string \<Rightarrow> string" where
  "TrimSpace s = TrimRight (TrimLeft s)"

subsection \<open>The version that indexes the header (plot.go)\<close>

text \<open>
  The loop \<open>for i, col := range header { colIndex[strings.TrimSpace(col)] = i }\<close>: a later
  column with the same name overwrites an earlier one.
\<close>

definition colIndex :: "string list \<Rightarrow> string \<Rightarrow> nat option" where
  "colIndex header =
     foldl (\<lambda>m ic. m(TrimSpace (snd ic) \<mapsto> fst ic)) Map.empty (enumerate 0 header)"

record col_idx =
  seqIdx :: nat
  recvIdx :: nat
  latIdx :: nat
  lostIdx :: nat
  netIdx :: "nat option"
  serverIdx :: "nat option"

text \<open>The lookups of the four required and the two optional columns.\<close>

definition lookup_columns :: "string list \<Rightarrow> plot_error + col_idx" where
  "lookup_columns header =
     (case colIndex header ''seq'' of
        None \<Rightarrow> Inl (MissingColumn ''seq'')
      | Some a \<Rightarrow>
          (case colIndex header ''recv_time'' of
             None \<Rightarrow> Inl (MissingColumn ''recv_time'')
           | Some b \<Rightarrow>
               (case colIndex header ''latency_ms'' of
                  None \<Rightarrow> Inl (MissingColumn ''latency_ms'')
                | Some c \<Rightarrow>
                    (case colIndex header ''lost'' of
                       None \<Rightarrow> Inl (MissingColumn ''lost'')
                     | Some d \<Rightarrow>
                         Inr \<lparr>seqIdx = a, recvIdx = b, latIdx = c, lostIdx = d,
                              netIdx = colIndex header ''net_latency_ms'',
                              serverIdx = colIndex header ''server_proc_ms''\<rparr>))))"

text \<open>
  An optional column of a row: \<open>if has && idx < len(record)\<close> and the parse succeeds, the
  parsed value, otherwise \<open>null\<close>.
\<close>

definition optional_cell ::
  "(string \<Rightarrow> 'f \<times> bool) \<Rightarrow> nat option \<Rightarrow> string list \<Rightarrow> 'f option" where
  "optional_cell ParseFloat oj rcd =
     (case oj of
        None \<Rightarrow> None
      | Some j \<Rightarrow>
          if j < length rcd
          then (if snd (ParseFloat (rcd ! j)) then Some (fst (ParseFloat (rcd ! j))) else None)
          else None)"

text \<open>The body of the loop over \<open>records[1:]\<close>, for the row \<open>rcd\<close> at index \<open>i\<close>.\<close>

definition plot_row ::
  "'f float64_ops \<Rightarrow> (string \<Rightarrow> 'f \<times> bool) \<Rightarrow> col_idx \<Rightarrow> 'f plot_acc \<Rightarrow>
   nat \<times> string list \<Rightarrow> 'f plot_acc" where
  "plot_row ops ParseFloat ix acc irow =
     (let i = fst irow; rcd = snd irow
      in if seqIdx ix \<ge> length rcd \<or> recvIdx ix \<ge> length rcd \<or> latIdx ix \<ge> length rcd
            \<or> lostIdx ix \<ge> length rcd
         then acc
         else
           (let seq = rcd ! seqIdx ix;
                recvTime = rcd ! recvIdx ix;
                latency = fst (ParseFloat (rcd ! latIdx ix));
                lost = (rcd ! lostIdx ix = ''true'');
                net = optional_cell ParseFloat (netIdx ix) rcd;
                server = optional_cell ParseFloat (serverIdx ix) rcd
            in acc\<lparr>totalNet :=
                     (case net of
                        None \<Rightarrow> totalNet acc
                      | Some v \<Rightarrow> if \<not> lost then F_add ops (totalNet acc) v else totalNet acc),
                   totalServer :=
                     (case server of
                        None \<Rightarrow> totalServer acc
                      | Some v \<Rightarrow>
                          if \<not> lost then F_add ops (totalServer acc) v else totalServer acc),
                   totalPackets := totalPackets acc + 1,
                   lostPackets := (if lost then lostPackets acc + 1 else lostPackets acc),
                   receivedCount := (if lost then receivedCount acc else receivedCount acc + 1),
                   totalLatency :=
                     (if lost then totalLatency acc else F_add ops (totalLatency acc) latency),
                   maxLatency :=
                     (if \<not> lost \<and> F_gt ops latency (maxLatency acc) then latency
                      else maxLatency acc),
                   dataJSON :=
                     dataJSON acc @ (if i > 0 then [Comma] else [])
                       @ [Entry seq recvTime latency net server lost]\<rparr>))"

definition plot_report :: "'f float64_ops \<Rightarrow> col_idx \<Rightarrow> 'f plot_acc \<Rightarrow> 'f report" where
  "plot_report ops ix acc =
     \<lparr>TOTAL_PACKETS = totalPackets acc,
      LOSS_PERCENT =
        (if totalPackets acc > 0
         then F_mul ops (F_div ops (F_of_int ops (lostPackets acc))
                                   (F_of_int ops (totalPackets acc)))
                (F_of_int ops 100)
         else F_of_int ops 0),
      AVG_LATENCY =
        (if receivedCount acc > 0
         then F_div ops (totalLatency acc) (F_of_int ops (receivedCount acc))
         else F_of_int ops 0),
      MAX_LATENCY = maxLatency acc,
      AVG_NET_LATENCY =
        (if receivedCount acc > 0 \<and> netIdx ix \<noteq> None
         then Some (F_div ops (totalNet acc) (F_of_int ops (receivedCount acc))) else None),
      AVG_SERVER_PROC =
        (if receivedCount acc > 0 \<and> serverIdx ix \<noteq> None
         then Some (F_div ops (totalServer acc) (F_of_int ops (receivedCount acc))) else None),
      DATA_JSON = dataJSON acc\<rparr>"

definition GeneratePlot ::
  "'f float64_ops \<Rightarrow> (string \<Rightarrow> 'f \<times> bool) \<Rightarrow> string list list \<Rightarrow> plot_error + 'f report"
  where
  "GeneratePlot ops ParseFloat recs =
     (if length recs < 2 then Inl NoDataRows
      else
        (case lookup_columns (hd recs) of
           Inl e \<Rightarrow> Inl e
         | Inr ix \<Rightarrow>
             Inr (plot_report ops ix
                    (foldl (plot_row ops ParseFloat ix) (plot_acc0 ops)
                       (enumerate 0 (tl recs))))))"

subsection \<open>The two earlier versions, which read fixed positions\<close>

text \<open>
  The first \<open>GeneratePlot\<close> reads \<open>record[0]\<close>, \<open>record[3]\<close> and \<open>record[4]\<close> of every
  row with at least five fields; the second one reads \<open>record[2]\<close> as well and writes it as
  \<open>recvTime\<close>.  Their template has no net and server averages.
\<close>

definition plot_row_v1 ::
  "'f float64_ops \<Rightarrow> (string \<Rightarrow> 'f \<times> bool) \<Rightarrow> 'f plot_acc \<Rightarrow> nat \<times> string list \<Rightarrow>
   'f plot_acc" where
  "plot_row_v1 ops ParseFloat acc irow =
     (let i = fst irow; rcd = snd irow
      in if length rcd < 5 then acc
         else
           (let seq = rcd ! 0;
                latency = fst (ParseFloat (rcd ! 3));
                lost = (rcd ! 4 = ''true'')
            in acc\<lparr>totalPackets := totalPackets acc + 1,
                   lostPackets := (if lost then lostPackets acc + 1 else lostPackets acc),
                   totalLatency :=
                     (if lost then totalLatency acc else F_add ops (totalLatency acc) latency),
                   maxLatency :=
                     (if \<not> lost \<and> F_gt ops latency (maxLatency acc) then latency
                      else maxLatency acc),
                   dataJSON :=
                     dataJSON acc @ (if i > 0 then [Comma] else [])
                       @ [EntrySeq seq latency lost]\<rparr>))"

definition plot_row_v2 ::
  "'f float64_ops \<Rightarrow> (string \<Rightarrow> 'f \<times> bool) \<Rightarrow> 'f plot_acc \<Rightarrow> nat \<times> string list \<Rightarrow>
   'f plot_acc" where
  "plot_row_v2 ops ParseFloat acc irow =
     (let i = fst irow; rcd = snd irow
      in if length rcd < 5 then acc
         else
           (let seq = rcd ! 0;
                recvTime = rcd ! 2;
                latency = fst (ParseFloat (rcd ! 3));
                lost = (rcd ! 4 = ''true'')
            in acc\<lparr>totalPackets := totalPackets acc + 1,
                   lostPackets := (if lost then lostPackets acc + 1 else lostPackets acc),
                   totalLatency :=
                     (if lost then totalLatency acc else F_add ops (totalLatency acc) latency),
                   maxLatency :=
                     (if \<not> lost \<and> F_gt ops latency (maxLatency acc) then latency
                      else maxLatency acc),
                   dataJSON :=
                     dataJSON acc @ (if i > 0 then [Comma] else [])
                       @ [EntryRecv seq recvTime latency lost]\<rparr>))"

definition plot_report_positional ::
  "'f float64_ops \<Rightarrow> 'f plot_acc \<Rightarrow> 'f report_positional" where
  "plot_report_positional ops acc =
     \<lparr>TOTAL_PACKETS_p = totalPackets acc,
      LOSS_PERCENT_p =
        (if totalPackets acc > 0
         then F_mul ops (F_div ops (F_of_int ops (lostPackets acc))
                                   (F_of_int ops (totalPackets acc)))
                (F_of_int ops 100)
         else F_of_int ops 0),
      AVG_LATENCY_p =
        (if totalPackets acc - lostPackets acc > 0
         then F_div ops (totalLatency acc) (F_of_int ops (totalPackets acc - lostPackets acc))
         else F_of_int ops 0),
      MAX_LATENCY_p = maxLatency acc,
      DATA_JSON_p = dataJSON acc\<rparr>"

definition GeneratePlot_v1 ::
  "'f float64_ops \<Rightarrow> (string \<Rightarrow> 'f \<times> bool) \<Rightarrow> string list list \<Rightarrow>
   plot_error + 'f report_positional" where
  "GeneratePlot_v1 ops ParseFloat recs =
     (if length recs < 2 then Inl NoDataRows
      else Inr (plot_report_positional ops
                  (foldl (plot_row_v1 ops ParseFloat) (plot_acc0 ops) (enumerate 0 (tl recs)))))"

definition GeneratePlot_v2 ::
  "'f float64_ops \<Rightarrow> (string \<Rightarrow> 'f \<times> bool) \<Rightarrow> string list list \<Rightarrow>
   plot_error + 'f report_positional" where
  "GeneratePlot_v2 ops ParseFloat recs =
     (if length recs < 2 then Inl NoDataRows
      else Inr (plot_report_positional ops
                  (foldl (plot_row_v2 ops ParseFloat) (plot_acc0 ops) (enumerate 0 (tl recs)))))"

subsection \<open>Reordering the columns of a CSV\<close>

text \<open>
  \<open>permute perm row\<close> is the row with the columns in the order \<open>perm\<close>: column \<open>j\<close> of
  the result is column \<open>perm ! j\<close> of \<open>row\<close>.
\<close>

definition permute :: "nat list \<Rightarrow> string list \<Rightarrow> string list" where
  "permute perm row = map (\<lambda>j. row ! j) perm"

text \<open>
  Two sets of column indices name the same columns when the first, in the reordered CSV,
  points to where the columns of the second went.
\<close>

definition same_column :: "nat list \<Rightarrow> nat \<Rightarrow> nat \<Rightarrow> bool" where
  "same_column perm j' j \<longleftrightarrow> j' < length perm \<and> perm ! j' = j"

definition same_columns :: "nat list \<Rightarrow> col_idx \<Rightarrow> col_idx \<Rightarrow> bool" where
  "same_columns perm ix' ix \<longleftrightarrow>
     same_column perm (seqIdx ix') (seqIdx ix) \<and>
     same_column perm (recvIdx ix') (recvIdx ix) \<and>
     same_column perm (latIdx ix') (latIdx ix) \<and>
     same_column perm (lostIdx ix') (lostIdx ix) \<and>
     rel_option (same_column perm) (netIdx ix') (netIdx ix) \<and>
     rel_option (same_column perm) (serverIdx ix') (serverIdx ix)"

text \<open>The names of the columns that \<open>GeneratePlot\<close> looks up.\<close>

definition required_names :: "string list" where
  "required_names = [''seq'', ''recv_time'', ''latency_ms'', ''lost'']"

definition read_names :: "string list" where
  "read_names = required_names @ [''net_latency_ms'', ''server_proc_ms'']"

text \<open>The positions that the loop body reads in a row.\<close>

definition read_indices :: "col_idx \<Rightarrow> nat set" where
  "read_indices ix =
     {seqIdx ix, recvIdx ix, latIdx ix, lostIdx ix} \<union> set_option (netIdx ix)
       \<union> set_option (serverIdx ix)"

section \<open>Codec proofs\<close>

lemma length_be64: "length (be64 v) = 8"
  by (simp add: be64_def)

lemma Uint64_be64_append: "Uint64 (be64 v @ zs) = v"
proof (rule bit_word_eqI)
  fix n :: nat
  assume "n < LENGTH(64)"
  then consider "n < 8" | "8 \<le> n" "n < 16" | "16 \<le> n" "n < 24" | "24 \<le> n" "n < 32"
    | "32 \<le> n" "n < 40" | "40 \<le> n" "n < 48" | "48 \<le> n" "n < 56" | "56 \<le> n" "n < 64"
    by (simp, linarith)
  then show "bit (Uint64 (be64 v @ zs)) n = bit v n"
    by cases (simp_all add: Uint64_def be64_def bit_simps less_diff_conv2)
qed

lemma bit_byte_high: "8 \<le> n \<Longrightarrow> \<not> bit (w :: byte) n"
  by (auto dest: bit_imp_le_length)

lemma bit_Uint64_byte:
  assumes "i < 8" "j < 8"
  shows "bit (Uint64 b) (8 * j + i) = bit (b ! (7 - j)) i"
proof -
  from \<open>j < 8\<close> consider "j = 0" | "j = 1" | "j = 2" | "j = 3" | "j = 4" | "j = 5" | "j = 6" | "j = 7"
    by linarith
  then show ?thesis
    using \<open>i < 8\<close>
    by cases (simp_all add: Uint64_def bit_simps bit_byte_high)
qed

lemma bit_Uint64:
  assumes "n < 64"
  shows "bit (Uint64 b) n = bit (b ! (7 - n div 8)) (n mod 8)"
proof -
  have "n mod 8 < 8" "n div 8 < 8" using assms by simp_all
  then have "bit (Uint64 b) (8 * (n div 8) + n mod 8) = bit (b ! (7 - n div 8)) (n mod 8)"
    by (rule bit_Uint64_byte)
  then show ?thesis by simp
qed

lemma bit_Uint64_slice:
  assumes "n < 64" "lo + 8 \<le> length data"
  shows "bit (Uint64 (slice data lo (lo + 8))) n = bit (data ! (lo + 7 - n div 8)) (n mod 8)"
proof -
  have "7 - n div 8 < 8" by simp
  then have "slice data lo (lo + 8) ! (7 - n div 8) = data ! (lo + (7 - n div 8))"
    using assms(2) by (simp add: slice_def)
  moreover have "lo + (7 - n div 8) = lo + 7 - n div 8"
    using assms(1) by simp
  ultimately show ?thesis using assms(1) by (simp add: bit_Uint64)
qed

lemma Encode_Inr:
  assumes "HeaderSize \<le> sz"
  shows "Encode p sz = Inr (be64 (P_SeqNum p) @ be64 (P_Timestamp p) @ be64 (P_ServerProcNs p)
            @ replicate (nat (sz - HeaderSize)) 0)"
proof -
  define k where "k = nat (sz - HeaderSize)"
  have sz: "\<not> sz < 0" "nat sz = 24 + k"
    using assms by (simp_all add: k_def HeaderSize_def SeqNumSize_def TimestampSize_def ProcTimeSize_def)
  have r: "replicate (24 + k) (0::byte) = replicate 8 0 @ replicate 8 0 @ replicate 8 0 @ replicate k 0"
    by (simp add: replicate_add [symmetric])
  show ?thesis
    unfolding Encode_def make_bytes_def PutUint64_def k_def [symmetric]
    by (simp add: sz r length_be64)
qed

lemma Encode_basic_Inr:
  assumes "HeaderSize_basic \<le> sz"
  shows "Encode_basic p sz = Inr (be64 (PB_SeqNum p) @ be64 (PB_Timestamp p)
            @ replicate (nat (sz - HeaderSize_basic)) 0)"
proof -
  define k where "k = nat (sz - HeaderSize_basic)"
  have sz: "\<not> sz < 0" "nat sz = 16 + k"
    using assms by (simp_all add: k_def HeaderSize_basic_def SeqNumSize_def TimestampSize_def)
  have r: "replicate (16 + k) (0::byte) = replicate 8 0 @ replicate 8 0 @ replicate k 0"
    by (simp add: replicate_add [symmetric])
  show ?thesis
    unfolding Encode_basic_def make_bytes_def PutUint64_def k_def [symmetric]
    by (simp add: sz r length_be64)
qed

lemma DecodePacket_wire:
  "DecodePacket (be64 a @ be64 b @ be64 c @ zs) =
     Some \<lparr>P_SeqNum = a, P_Timestamp = b, P_ServerProcNs = c, P_Payload = zs\<rparr>"
proof -
  have "slice (be64 a @ be64 b @ be64 c @ zs) 0 8 = be64 a"
    "slice (be64 a @ be64 b @ be64 c @ zs) 8 16 = be64 b"
    "slice (be64 a @ be64 b @ be64 c @ zs) 16 24 = be64 c"
    by (simp_all add: slice_def length_be64)
  moreover have "Uint64 (be64 a) = a" "Uint64 (be64 b) = b" "Uint64 (be64 c) = c"
    using Uint64_be64_append [of _ "[]"] by simp_all
  ultimately show ?thesis
    by (simp add: DecodePacket_def HeaderSize_def SeqNumSize_def TimestampSize_def
        ProcTimeSize_def length_be64)
qed

lemma DecodePacket_basic_wire:
  "DecodePacket_basic (be64 a @ be64 b @ zs) =
     Some \<lparr>PB_SeqNum = a, PB_Timestamp = b, PB_Payload = zs\<rparr>"
proof -
  have "slice (be64 a @ be64 b @ zs) 0 8 = be64 a"
    "slice (be64 a @ be64 b @ zs) 8 16 = be64 b"
    by (simp_all add: slice_def length_be64)
  moreover have "Uint64 (be64 a) = a" "Uint64 (be64 b) = b"
    using Uint64_be64_append [of _ "[]"] by simp_all
  ultimately show ?thesis
    by (simp add: DecodePacket_basic_def HeaderSize_basic_def SeqNumSize_def TimestampSize_def
        length_be64)
qed

text \<open>
  Claim C3.  For every packet and every total size of at least the header size, \<open>Encode\<close>
  does not panic and returns a buffer of exactly that size, and \<open>DecodePacket\<close> on that
  buffer returns a packet (never \<open>nil\<close>) with the same sequence number and send timestamp
  and, in the 24-byte variant, the same server processing time; the payload is the zero
  padding.
\<close>

theorem Encode_DecodePacket_roundtrip:
  "(HeaderSize \<le> sz \<longrightarrow>
      (\<exists>buf q. Encode p sz = Inr buf \<and> int (length buf) = sz \<and> DecodePacket buf = Some q \<and>
         P_SeqNum q = P_SeqNum p \<and> P_Timestamp q = P_Timestamp p \<and>
         P_ServerProcNs q = P_ServerProcNs p \<and>
         P_Payload q = replicate (nat (sz - HeaderSize)) 0)) \<and>
   (HeaderSize_basic \<le> sz \<longrightarrow>
      (\<exists>buf q. Encode_basic pb sz = Inr buf \<and> int (length buf) = sz \<and>
         DecodePacket_basic buf = Some q \<and>
         PB_SeqNum q = PB_SeqNum pb \<and> PB_Timestamp q = PB_Timestamp pb \<and>
         PB_Payload q = replicate (nat (sz - HeaderSize_basic)) 0))"
proof (intro conjI impI)
  assume h: "HeaderSize \<le> sz"
  have "int (length (be64 (P_SeqNum p) @ be64 (P_Timestamp p) @ be64 (P_ServerProcNs p)
            @ replicate (nat (sz - HeaderSize)) (0::byte))) = sz"
    using h by (simp add: length_be64 HeaderSize_def SeqNumSize_def TimestampSize_def ProcTimeSize_def)
  then show "\<exists>buf q. Encode p sz = Inr buf \<and> int (length buf) = sz \<and> DecodePacket buf = Some q \<and>
         P_SeqNum q = P_SeqNum p \<and> P_Timestamp q = P_Timestamp p \<and>
         P_ServerProcNs q = P_ServerProcNs p \<and>
         P_Payload q = replicate (nat (sz - HeaderSize)) 0"
    by (simp add: Encode_Inr [OF h] DecodePacket_wire)
next
  assume h: "HeaderSize_basic \<le> sz"
  have "int (length (be64 (PB_SeqNum pb) @ be64 (PB_Timestamp pb)
            @ replicate (nat (sz - HeaderSize_basic)) (0::byte))) = sz"
    using h by (simp add: length_be64 HeaderSize_basic_def SeqNumSize_def TimestampSize_def)
  then show "\<exists>buf q. Encode_basic pb sz = Inr buf \<and> int (length buf) = sz \<and>
         DecodePacket_basic buf = Some q \<and>
         PB_SeqNum q = PB_SeqNum pb \<and> PB_Timestamp q = PB_Timestamp pb \<and>
         PB_Payload q = replicate (nat (sz - HeaderSize_basic)) 0"
    by (simp add: Encode_basic_Inr [OF h] DecodePacket_basic_wire)
qed

theorem Encode_DecodePacket_roundtrip_witness:
  "Encode \<lparr>P_SeqNum = 7, P_Timestamp = - 5, P_ServerProcNs = 300, P_Payload = []\<rparr> 26 =
     Inr [0, 0, 0, 0, 0, 0, 0, 7, 255, 255, 255, 255, 255, 255, 255, 251,
          0, 0, 0, 0, 0, 0, 1, 44, 0, 0] \<and>
   DecodePacket [0, 0, 0, 0, 0, 0, 0, 7, 255, 255, 255, 255, 255, 255, 255, 251,
          0, 0, 0, 0, 0, 0, 1, 44, 0, 0] =
     Some \<lparr>P_SeqNum = 7, P_Timestamp = - 5, P_ServerProcNs = 300, P_Payload = [0, 0]\<rparr> \<and>
   Encode_basic \<lparr>PB_SeqNum = 7, PB_Timestamp = - 5, PB_Payload = []\<rparr> 26 =
     Inr [0, 0, 0, 0, 0, 0, 0, 7, 255, 255, 255, 255, 255, 255, 255, 251,
          0, 0, 0, 0, 0, 0, 0, 0, 0, 0] \<and>
   DecodePacket_basic [0, 0, 0, 0, 0, 0, 0, 7, 255, 255, 255, 255, 255, 255, 255, 251,
          0, 0, 0, 0, 0, 0, 0, 0, 0, 0] =
     Some \<lparr>PB_SeqNum = 7, PB_Timestamp = - 5, PB_Payload = [0, 0, 0, 0, 0, 0, 0, 0, 0, 0]\<rparr>"
proof -
  have r: "replicate 2 (0::byte) = [0, 0]"
    "replicate 10 (0::byte) = [0, 0, 0, 0, 0, 0, 0, 0, 0, 0]"
    by (simp_all add: numeral_eq_Suc)
  show ?thesis
    using Encode_DecodePacket_roundtrip
      [of 26 "\<lparr>P_SeqNum = 7, P_Timestamp = - 5, P_ServerProcNs = 300, P_Payload = []\<rparr>"
          "\<lparr>PB_SeqNum = 7, PB_Timestamp = - 5, PB_Payload = []\<rparr>"]
    by (simp add: Encode_def Encode_basic_def make_bytes_def PutUint64_def be64_def
        DecodePacket_def DecodePacket_basic_def HeaderSize_def HeaderSize_basic_def SeqNumSize_def
        TimestampSize_def ProcTimeSize_def slice_def Uint64_def r)
qed


text \<open>
  Claim C4.  \<open>DecodePacket\<close> returns \<open>nil\<close> on every input shorter than the header (16 bytes
  in the basic variant, 24 in the extended one).  On every longer input it returns a packet
  whose fields are the big-endian values at the fixed offsets: bit \<open>n\<close> of the field that
  starts at byte \<open>lo\<close> is bit \<open>n mod 8\<close> of byte \<open>lo + 7 - n div 8\<close>; the payload is
  the rest of the input.
\<close>

theorem DecodePacket_short_or_fields:
  "(length data < 16 \<longrightarrow> DecodePacket_basic data = None) \<and>
   (16 \<le> length data \<longrightarrow>
      (\<exists>q. DecodePacket_basic data = Some q \<and>
         (\<forall>n<64. bit (PB_SeqNum q) n = bit (data ! (7 - n div 8)) (n mod 8)) \<and>
         (\<forall>n<64. bit (PB_Timestamp q) n = bit (data ! (15 - n div 8)) (n mod 8)) \<and>
         PB_Payload q = drop 16 data)) \<and>
   (length data < 24 \<longrightarrow> DecodePacket data = None) \<and>
   (24 \<le> length data \<longrightarrow>
      (\<exists>q. DecodePacket data = Some q \<and>
         (\<forall>n<64. bit (P_SeqNum q) n = bit (data ! (7 - n div 8)) (n mod 8)) \<and>
         (\<forall>n<64. bit (P_Timestamp q) n = bit (data ! (15 - n div 8)) (n mod 8)) \<and>
         (\<forall>n<64. bit (P_ServerProcNs q) n = bit (data ! (23 - n div 8)) (n mod 8)) \<and>
         P_Payload q = drop 24 data))"
proof (intro conjI impI)
  assume "length data < 16"
  then show "DecodePacket_basic data = None"
    by (simp add: DecodePacket_basic_def HeaderSize_basic_def SeqNumSize_def TimestampSize_def)
next
  assume h: "16 \<le> length data"
  then have "0 + 8 \<le> length data" "8 + 8 \<le> length data" by simp_all
  from bit_Uint64_slice [OF _ this(1)] bit_Uint64_slice [OF _ this(2)]
  show "\<exists>q. DecodePacket_basic data = Some q \<and>
         (\<forall>n<64. bit (PB_SeqNum q) n = bit (data ! (7 - n div 8)) (n mod 8)) \<and>
         (\<forall>n<64. bit (PB_Timestamp q) n = bit (data ! (15 - n div 8)) (n mod 8)) \<and>
         PB_Payload q = drop 16 data"
    using h
    by (simp add: DecodePacket_basic_def HeaderSize_basic_def SeqNumSize_def TimestampSize_def)
next
  assume "length data < 24"
  then show "DecodePacket data = None"
    by (simp add: DecodePacket_def HeaderSize_def SeqNumSize_def TimestampSize_def ProcTimeSize_def)
next
  assume h: "24 \<le> length data"
  then have "0 + 8 \<le> length data" "8 + 8 \<le> length data" "16 + 8 \<le> length data"
    by simp_all
  from bit_Uint64_slice [OF _ this(1)] bit_Uint64_slice [OF _ this(2)]
    bit_Uint64_slice [OF _ this(3)]
  show "\<exists>q. DecodePacket data = Some q \<and>
         (\<forall>n<64. bit (P_SeqNum q) n = bit (data ! (7 - n div 8)) (n mod 8)) \<and>
         (\<forall>n<64. bit (P_Timestamp q) n = bit (data ! (15 - n div 8)) (n mod 8)) \<and>
         (\<forall>n<64. bit (P_ServerProcNs q) n = bit (data ! (23 - n div 8)) (n mod 8)) \<and>
         P_Payload q = drop 24 data"
    using h
    by (simp add: DecodePacket_def HeaderSize_def SeqNumSize_def TimestampSize_def
        ProcTimeSize_def)
qed

theorem DecodePacket_short_or_fields_witness:
  "DecodePacket_basic [1, 2, 3] = None \<and> DecodePacket [1, 2, 3] = None \<and>
   DecodePacket_basic [1, 2, 3, 4, 5, 6, 7, 8, 9, 10, 11, 12, 13, 14, 15, 16, 17, 18, 19, 20,
       21, 22, 23, 24, 25] =
     Some \<lparr>PB_SeqNum = 0x0102030405060708, PB_Timestamp = 0x090A0B0C0D0E0F10,
           PB_Payload = [17, 18, 19, 20, 21, 22, 23, 24, 25]\<rparr> \<and>
   DecodePacket [1, 2, 3, 4, 5, 6, 7, 8, 9, 10, 11, 12, 13, 14, 15, 16, 17, 18, 19, 20,
       21, 22, 23, 24, 25] =
     Some \<lparr>P_SeqNum = 0x0102030405060708, P_Timestamp = 0x090A0B0C0D0E0F10,
           P_ServerProcNs = 0x1112131415161718, P_Payload = [25]\<rparr>"
  using DecodePacket_short_or_fields [of "[1, 2, 3]"]
    DecodePacket_short_or_fields [of "[1, 2, 3, 4, 5, 6, 7, 8, 9, 10, 11, 12, 13, 14, 15, 16,
       17, 18, 19, 20, 21, 22, 23, 24, 25]"]
  by (simp add: DecodePacket_def DecodePacket_basic_def HeaderSize_def HeaderSize_basic_def
      SeqNumSize_def TimestampSize_def ProcTimeSize_def slice_def Uint64_def)

section \<open>Aggregator proofs\<close>

lemma map_of_update_same: "map_of (AList.update k v al) k = Some v"
  by (simp add: update_conv')

lemma RecordReceived_unknown:
  "map_of (records s) seqNum = None \<Longrightarrow> RecordReceived s seqNum t p = s"
  by (simp add: RecordReceived_def)

lemma RecordReceived_resolved:
  "map_of (records s) seqNum = Some rcd \<Longrightarrow> \<not> Lost rcd \<Longrightarrow> RecordReceived s seqNum t p = s"
  by (simp add: RecordReceived_def)

lemma RecordReceived_first:
  assumes "map_of (records s) seqNum = Some rcd" "Lost rcd"
  shows "map_of (records (RecordReceived s seqNum t p)) seqNum =
     Some (rcd\<lparr>RecvTime := t,
              LatencyMs := real_of_int (sint (t - SentTime rcd)) / 1000000,
              ServerProcMs := real_of_int (sint p) / 1000000,
              NetLatencyMs := max 0 (real_of_int (sint (t - SentTime rcd)) / 1000000
                                     - real_of_int (sint p) / 1000000),
              Lost := False,
              Late := (real_of_int (sint (t - SentTime rcd)) / 1000000 > lateThreshold s
                       \<or> Late rcd)\<rparr>)"
  using assms
  by (simp add: RecordReceived_def Let_def map_of_update_same Millisecond_def max_def)

lemma RecordReceived_basic_unknown:
  "map_of (b_records s) seqNum = None \<Longrightarrow> RecordReceived_basic s seqNum t = s"
  by (simp add: RecordReceived_basic_def)

lemma RecordReceived_basic_resolved:
  "map_of (b_records s) seqNum = Some rcd \<Longrightarrow> \<not> B_Lost rcd \<Longrightarrow>
     RecordReceived_basic s seqNum t = s"
  by (simp add: RecordReceived_basic_def)

lemma RecordReceived_basic_first:
  assumes "map_of (b_records s) seqNum = Some rcd" "B_Lost rcd"
  shows "map_of (b_records (RecordReceived_basic s seqNum t)) seqNum =
     Some (rcd\<lparr>B_RecvTime := t,
              B_LatencyMs := real_of_int (sint (t - B_SentTime rcd)) / 1000000,
              B_Lost := False\<rparr>)"
  using assms
  by (simp add: RecordReceived_basic_def Let_def map_of_update_same Millisecond_def)


text \<open>
  Claim C1.  \<open>RecordReceived\<close> for a sequence number that is not in the map, or whose record
  is already resolved (\<open>Lost = false\<close>), returns the aggregator unchanged: stored records,
  counters, sample lists and min/max/sum aggregates are all the same.  A receive for a record
  that is still lost sets \<open>Lost\<close> to false, fills the timing fields and counts once; a
  second receive for the same sequence number then changes nothing.  Both variants.
\<close>

theorem RecordReceived_first_response_wins:
  "(map_of (records s) seqNum = None \<longrightarrow> RecordReceived s seqNum t p = s) \<and>
   (\<forall>rcd. map_of (records s) seqNum = Some rcd \<and> \<not> Lost rcd \<longrightarrow>
      RecordReceived s seqNum t p = s) \<and>
   (\<forall>rcd. map_of (records s) seqNum = Some rcd \<and> Lost rcd \<longrightarrow>
      map_of (records (RecordReceived s seqNum t p)) seqNum =
        Some (rcd\<lparr>RecvTime := t,
                 LatencyMs := real_of_int (sint (t - SentTime rcd)) / 1000000,
                 ServerProcMs := real_of_int (sint p) / 1000000,
                 NetLatencyMs := max 0 (real_of_int (sint (t - SentTime rcd)) / 1000000
                                        - real_of_int (sint p) / 1000000),
                 Lost := False,
                 Late := (real_of_int (sint (t - SentTime rcd)) / 1000000 > lateThreshold s
                          \<or> Late rcd)\<rparr>) \<and>
      received (RecordReceived s seqNum t p) = received s + 1 \<and>
      RecordReceived (RecordReceived s seqNum t p) seqNum t' p' = RecordReceived s seqNum t p) \<and>
   (map_of (b_records sb) seqNum = None \<longrightarrow> RecordReceived_basic sb seqNum t = sb) \<and>
   (\<forall>rcd. map_of (b_records sb) seqNum = Some rcd \<and> \<not> B_Lost rcd \<longrightarrow>
      RecordReceived_basic sb seqNum t = sb) \<and>
   (\<forall>rcd. map_of (b_records sb) seqNum = Some rcd \<and> B_Lost rcd \<longrightarrow>
      map_of (b_records (RecordReceived_basic sb seqNum t)) seqNum =
        Some (rcd\<lparr>B_RecvTime := t,
                 B_LatencyMs := real_of_int (sint (t - B_SentTime rcd)) / 1000000,
                 B_Lost := False\<rparr>) \<and>
      b_received (RecordReceived_basic sb seqNum t) = b_received sb + 1 \<and>
      RecordReceived_basic (RecordReceived_basic sb seqNum t) seqNum t' =
        RecordReceived_basic sb seqNum t)"
proof (intro conjI allI impI)
  assume "map_of (records s) seqNum = None"
  then show "RecordReceived s seqNum t p = s" by (rule RecordReceived_unknown)
next
  fix rcd assume "map_of (records s) seqNum = Some rcd \<and> \<not> Lost rcd"
  then show "RecordReceived s seqNum t p = s" by (simp add: RecordReceived_resolved)
next
  fix rcd assume h: "map_of (records s) seqNum = Some rcd \<and> Lost rcd"
  then show first: "map_of (records (RecordReceived s seqNum t p)) seqNum =
        Some (rcd\<lparr>RecvTime := t,
                 LatencyMs := real_of_int (sint (t - SentTime rcd)) / 1000000,
                 ServerProcMs := real_of_int (sint p) / 1000000,
                 NetLatencyMs := max 0 (real_of_int (sint (t - SentTime rcd)) / 1000000
                                        - real_of_int (sint p) / 1000000),
                 Lost := False,
                 Late := (real_of_int (sint (t - SentTime rcd)) / 1000000 > lateThreshold s
                          \<or> Late rcd)\<rparr>)"
    by (simp add: RecordReceived_first)
  from h show "received (RecordReceived s seqNum t p) = received s + 1"
    by (simp add: RecordReceived_def Let_def)
  from first show "RecordReceived (RecordReceived s seqNum t p) seqNum t' p' =
      RecordReceived s seqNum t p"
    by (rule RecordReceived_resolved) simp
next
  assume "map_of (b_records sb) seqNum = None"
  then show "RecordReceived_basic sb seqNum t = sb" by (rule RecordReceived_basic_unknown)
next
  fix rcd assume "map_of (b_records sb) seqNum = Some rcd \<and> \<not> B_Lost rcd"
  then show "RecordReceived_basic sb seqNum t = sb" by (simp add: RecordReceived_basic_resolved)
next
  fix rcd assume h: "map_of (b_records sb) seqNum = Some rcd \<and> B_Lost rcd"
  then show first: "map_of (b_records (RecordReceived_basic sb seqNum t)) seqNum =
        Some (rcd\<lparr>B_RecvTime := t,
                 B_LatencyMs := real_of_int (sint (t - B_SentTime rcd)) / 1000000,
                 B_Lost := False\<rparr>)"
    by (simp add: RecordReceived_basic_first)
  from h show "b_received (RecordReceived_basic sb seqNum t) = b_received sb + 1"
    by (simp add: RecordReceived_basic_def Let_def)
  from first show "RecordReceived_basic (RecordReceived_basic sb seqNum t) seqNum t' =
      RecordReceived_basic sb seqNum t"
    by (rule RecordReceived_basic_resolved) simp
qed

theorem RecordReceived_first_response_wins_witness:
  "RecordReceived (NewStats 100 0) 5 7 0 = NewStats 100 0 \<and>
   map_of (records (RecordReceived (RecordSent (NewStats 100 0) 1 1000) 1 3001000 500000)) 1 =
     Some \<lparr>SeqNum = 1, SentTime = 1000, RecvTime = 3001000, LatencyMs = 3,
           ServerProcMs = 1 / 2, NetLatencyMs = 5 / 2, Lost = False, Late = False\<rparr> \<and>
   RecordReceived (RecordReceived (RecordSent (NewStats 100 0) 1 1000) 1 3001000 500000) 1 99 0 =
     RecordReceived (RecordSent (NewStats 100 0) 1 1000) 1 3001000 500000 \<and>
   RecordReceived_basic (NewStats_basic 0 0) 5 7 = NewStats_basic 0 0 \<and>
   map_of (b_records (RecordReceived_basic (RecordSent_basic (NewStats_basic 0 0) 1 1000) 1 3001000)) 1 =
     Some \<lparr>B_SeqNum = 1, B_SentTime = 1000, B_RecvTime = 3001000, B_LatencyMs = 3,
           B_Lost = False\<rparr> \<and>
   RecordReceived_basic (RecordReceived_basic (RecordSent_basic (NewStats_basic 0 0) 1 1000) 1 3001000) 1 99 =
     RecordReceived_basic (RecordSent_basic (NewStats_basic 0 0) 1 1000) 1 3001000"
  using RecordReceived_first_response_wins [where s = "NewStats 100 0" and seqNum = 5 and t = 7
      and p = 0 and sb = "NewStats_basic 0 0"]
    RecordReceived_first_response_wins [where s = "RecordSent (NewStats 100 0) 1 1000"
      and seqNum = 1 and t = 3001000 and p = 500000 and t' = 99 and p' = 0
      and sb = "RecordSent_basic (NewStats_basic 0 0) 1 1000"]
  by (simp add: NewStats_def NewStats_basic_def RecordSent_def RecordSent_basic_def)

lemma update_absent: "k \<notin> fst ` set al \<Longrightarrow> AList.update k v al = al @ [(k, v)]"
  by (induction al) auto

lemma update_present_keys:
  "map_of al k = Some v \<Longrightarrow> map fst (AList.update k v' al) = map fst al"
  by (induction al) (auto split: if_splits)

lemma update_present_length:
  "map_of al k = Some v \<Longrightarrow> length (AList.update k v' al) = length al"
  by (induction al) (auto split: if_splits)

lemma update_present_filter:
  "map_of al k = Some v \<Longrightarrow> \<not> P (k, v) \<Longrightarrow> P (k, v') \<Longrightarrow>
     length (filter P (AList.update k v' al)) = Suc (length (filter P al))"
  by (induction al) (auto split: if_splits)

lemma update_present_set:
  "set (AList.update k v al) \<subseteq> insert (k, v) (set al)"
  by (induction al) auto

lemma map_of_None_keys: "map_of al k = None \<longleftrightarrow> k \<notin> set (map fst al)"
  by (simp add: map_of_eq_None_iff)

lemma run_snoc: "run s (evs @ [e]) = step (run s evs) e"
  by (simp add: run_def)

lemma run_basic_snoc: "run_basic s (evs @ [e]) = step_basic (run_basic s evs) e"
  by (simp add: run_basic_def)

lemma sent_seqs_append: "sent_seqs (xs @ ys) = sent_seqs xs @ sent_seqs ys"
  by (induction xs rule: sent_seqs.induct) simp_all

lemma received_seqs_append: "received_seqs (xs @ ys) = received_seqs xs @ received_seqs ys"
  by (induction xs rule: received_seqs.induct) simp_all

lemma sent_seqs_basic_append:
  "sent_seqs_basic (xs @ ys) = sent_seqs_basic xs @ sent_seqs_basic ys"
  by (induction xs rule: sent_seqs_basic.induct) simp_all

text \<open>One step of each method on a state that satisfies the counting invariant.\<close>

lemma RecordSent_counts:
  assumes "map fst (records s) = ks" "k \<notin> set ks"
    and "sent s = of_nat (length (records s))" "received s = of_nat (resolved s)"
    and "length (latencies s) = resolved s"
  shows "map fst (records (RecordSent s k t)) = ks @ [k] \<and>
         sent (RecordSent s k t) = of_nat (length (records (RecordSent s k t))) \<and>
         received (RecordSent s k t) = of_nat (resolved (RecordSent s k t)) \<and>
         length (latencies (RecordSent s k t)) = resolved (RecordSent s k t)"
proof -
  have "k \<notin> fst ` set (records s)" using assms(1,2) by (metis set_map)
  then have "records (RecordSent s k t) = records s @
      [(k, \<lparr>SeqNum = k, SentTime = t, RecvTime = 0, LatencyMs = 0, ServerProcMs = 0,
            NetLatencyMs = 0, Lost = True, Late = False\<rparr>)]"
    by (simp add: RecordSent_def update_absent)
  then show ?thesis
    using assms by (simp add: resolved_def RecordSent_def)
qed

lemma RecordReceived_counts:
  assumes "map fst (records s) = ks"
    and "sent s = of_nat (length (records s))" "received s = of_nat (resolved s)"
    and "length (latencies s) = resolved s"
  shows "map fst (records (RecordReceived s k t p)) = ks \<and>
         sent (RecordReceived s k t p) = of_nat (length (records (RecordReceived s k t p))) \<and>
         received (RecordReceived s k t p) = of_nat (resolved (RecordReceived s k t p)) \<and>
         length (latencies (RecordReceived s k t p)) = resolved (RecordReceived s k t p)"
proof (cases "map_of (records s) k")
  case None
  then show ?thesis using assms by (simp add: RecordReceived_unknown)
next
  case (Some rcd)
  show ?thesis
  proof (cases "Lost rcd")
    case False
    with Some show ?thesis using assms by (simp add: RecordReceived_resolved)
  next
    case True
    show ?thesis
      using assms Some True
      by (simp add: RecordReceived_def Let_def resolved_def update_present_keys
          update_present_length update_present_filter)
  qed
qed


lemma RecordSent_basic_counts:
  assumes "map fst (b_records s) = ks" "k \<notin> set ks"
    and "b_sent s = of_nat (length (b_records s))" "b_received s = of_nat (resolved_basic s)"
    and "length (b_latencies s) = resolved_basic s"
  shows "map fst (b_records (RecordSent_basic s k t)) = ks @ [k] \<and>
         b_sent (RecordSent_basic s k t) = of_nat (length (b_records (RecordSent_basic s k t))) \<and>
         b_received (RecordSent_basic s k t) = of_nat (resolved_basic (RecordSent_basic s k t)) \<and>
         length (b_latencies (RecordSent_basic s k t)) = resolved_basic (RecordSent_basic s k t)"
proof -
  have "k \<notin> fst ` set (b_records s)" using assms(1,2) by (metis set_map)
  then have "b_records (RecordSent_basic s k t) = b_records s @
      [(k, \<lparr>B_SeqNum = k, B_SentTime = t, B_RecvTime = 0, B_LatencyMs = 0, B_Lost = True\<rparr>)]"
    by (simp add: RecordSent_basic_def update_absent)
  then show ?thesis
    using assms by (simp add: resolved_basic_def RecordSent_basic_def)
qed

lemma RecordReceived_basic_counts:
  assumes "map fst (b_records s) = ks"
    and "b_sent s = of_nat (length (b_records s))" "b_received s = of_nat (resolved_basic s)"
    and "length (b_latencies s) = resolved_basic s"
  shows "map fst (b_records (RecordReceived_basic s k t)) = ks \<and>
         b_sent (RecordReceived_basic s k t) =
           of_nat (length (b_records (RecordReceived_basic s k t))) \<and>
         b_received (RecordReceived_basic s k t) =
           of_nat (resolved_basic (RecordReceived_basic s k t)) \<and>
         length (b_latencies (RecordReceived_basic s k t)) =
           resolved_basic (RecordReceived_basic s k t)"
proof (cases "map_of (b_records s) k")
  case None
  then show ?thesis using assms by (simp add: RecordReceived_basic_unknown)
next
  case (Some rcd)
  show ?thesis
  proof (cases "B_Lost rcd")
    case False
    with Some show ?thesis using assms by (simp add: RecordReceived_basic_resolved)
  next
    case True
    show ?thesis
      using assms Some True
      by (simp add: RecordReceived_basic_def Let_def resolved_basic_def update_present_keys
          update_present_length update_present_filter)
  qed
qed

lemma run_counts:
  assumes "distinct (sent_seqs evs)"
  shows "map fst (records (run (NewStats thr now) evs)) = sent_seqs evs \<and>
         sent (run (NewStats thr now) evs) = of_nat (length (records (run (NewStats thr now) evs))) \<and>
         received (run (NewStats thr now) evs) = of_nat (resolved (run (NewStats thr now) evs)) \<and>
         length (latencies (run (NewStats thr now) evs)) = resolved (run (NewStats thr now) evs)"
  using assms
proof (induction evs rule: rev_induct)
  case Nil
  show ?case by (simp add: run_def NewStats_def resolved_def)
next
  case (snoc e evs)
  then have d: "distinct (sent_seqs evs)" by (simp add: sent_seqs_append)
  note ih = snoc.IH [OF d]
  show ?case
  proof (cases e)
    case (Sent k t)
    with snoc.prems have "k \<notin> set (sent_seqs evs)" by (simp add: sent_seqs_append)
    with ih show ?thesis
      using RecordSent_counts [of "run (NewStats thr now) evs" "sent_seqs evs" k t]
      by (simp add: run_snoc Sent sent_seqs_append)
  next
    case (Received k t p)
    with ih show ?thesis
      using RecordReceived_counts [of "run (NewStats thr now) evs" "sent_seqs evs" k t p]
      by (simp add: run_snoc Received sent_seqs_append)
  qed
qed

lemma run_basic_counts:
  assumes "distinct (sent_seqs_basic evs)"
  shows "map fst (b_records (run_basic (NewStats_basic n1 n2) evs)) = sent_seqs_basic evs \<and>
         b_sent (run_basic (NewStats_basic n1 n2) evs) =
           of_nat (length (b_records (run_basic (NewStats_basic n1 n2) evs))) \<and>
         b_received (run_basic (NewStats_basic n1 n2) evs) =
           of_nat (resolved_basic (run_basic (NewStats_basic n1 n2) evs)) \<and>
         length (b_latencies (run_basic (NewStats_basic n1 n2) evs)) =
           resolved_basic (run_basic (NewStats_basic n1 n2) evs)"
  using assms
proof (induction evs rule: rev_induct)
  case Nil
  show ?case by (simp add: run_basic_def NewStats_basic_def resolved_basic_def)
next
  case (snoc e evs)
  then have d: "distinct (sent_seqs_basic evs)" by (simp add: sent_seqs_basic_append)
  note ih = snoc.IH [OF d]
  show ?case
  proof (cases e)
    case (Sent_basic k t)
    with snoc.prems have "k \<notin> set (sent_seqs_basic evs)" by (simp add: sent_seqs_basic_append)
    with ih show ?thesis
      using RecordSent_basic_counts [of "run_basic (NewStats_basic n1 n2) evs" "sent_seqs_basic evs" k t]
      by (simp add: run_basic_snoc Sent_basic sent_seqs_basic_append)
  next
    case (Received_basic k t)
    with ih show ?thesis
      using RecordReceived_basic_counts [of "run_basic (NewStats_basic n1 n2) evs" "sent_seqs_basic evs" k t]
      by (simp add: run_basic_snoc Received_basic sent_seqs_basic_append)
  qed
qed

lemma unat_of_nat64: "n < 2 ^ 64 \<Longrightarrow> unat (of_nat n :: uint64) = n"
  by (simp add: unat_of_nat)

lemma of_nat64_mono: "m \<le> n \<Longrightarrow> n < 2 ^ 64 \<Longrightarrow> (of_nat m :: uint64) \<le> of_nat n"
  by (simp add: word_le_nat_alt unat_of_nat)

text \<open>
  Claim C10.  After any sequence of \<open>RecordSent\<close> calls with pairwise distinct sequence
  numbers, interleaved with arbitrary \<open>RecordReceived\<close> calls, on a fresh aggregator:
  the number of stored records is the number of sends, the \<open>sent\<close> counter is that number
  and the \<open>received\<close> counter is the number of resolved records (both as \<open>uint64\<close>), the
  latter is the length of \<open>latencies\<close> and at most the number of stored records.  Below
  \<open>2^64\<close> sends the counters are these numbers exactly and \<open>received \<le> sent\<close>.  Both variants.
\<close>

theorem counters_invariant:
  "(distinct (sent_seqs evs) \<longrightarrow>
      (let s = run (NewStats thr now) evs
       in length (records s) = length (sent_seqs evs) \<and>
          sent s = of_nat (length (records s)) \<and>
          received s = of_nat (resolved s) \<and>
          resolved s = length (latencies s) \<and>
          resolved s \<le> length (records s) \<and>
          (length (sent_seqs evs) < 2 ^ 64 \<longrightarrow>
             unat (sent s) = length (records s) \<and> unat (received s) = resolved s \<and>
             unat (received s) = length (latencies s) \<and> received s \<le> sent s))) \<and>
   (distinct (sent_seqs_basic evb) \<longrightarrow>
      (let s = run_basic (NewStats_basic n1 n2) evb
       in length (b_records s) = length (sent_seqs_basic evb) \<and>
          b_sent s = of_nat (length (b_records s)) \<and>
          b_received s = of_nat (resolved_basic s) \<and>
          resolved_basic s = length (b_latencies s) \<and>
          resolved_basic s \<le> length (b_records s) \<and>
          (length (sent_seqs_basic evb) < 2 ^ 64 \<longrightarrow>
             unat (b_sent s) = length (b_records s) \<and> unat (b_received s) = resolved_basic s \<and>
             unat (b_received s) = length (b_latencies s) \<and> b_received s \<le> b_sent s)))"
proof (intro conjI impI)
  assume d: "distinct (sent_seqs evs)"
  define s where "s = run (NewStats thr now) evs"
  from run_counts [OF d, of thr now]
  have k: "map fst (records s) = sent_seqs evs" and c: "sent s = of_nat (length (records s))"
    "received s = of_nat (resolved s)" "length (latencies s) = resolved s"
    by (simp_all add: s_def)
  from k have l: "length (records s) = length (sent_seqs evs)"
    by (metis length_map)
  have r: "resolved s \<le> length (records s)" by (simp add: resolved_def)
  have "length (sent_seqs evs) < 2 ^ 64 \<longrightarrow>
     unat (sent s) = length (records s) \<and> unat (received s) = resolved s \<and>
     unat (received s) = length (latencies s) \<and> received s \<le> sent s"
    using l r c by (auto simp: unat_of_nat64 of_nat64_mono)
  with l r c show "let s = run (NewStats thr now) evs
       in length (records s) = length (sent_seqs evs) \<and>
          sent s = of_nat (length (records s)) \<and>
          received s = of_nat (resolved s) \<and>
          resolved s = length (latencies s) \<and>
          resolved s \<le> length (records s) \<and>
          (length (sent_seqs evs) < 2 ^ 64 \<longrightarrow>
             unat (sent s) = length (records s) \<and> unat (received s) = resolved s \<and>
             unat (received s) = length (latencies s) \<and> received s \<le> sent s)"
    unfolding Let_def s_def [symmetric] by simp
next
  assume d: "distinct (sent_seqs_basic evb)"
  define s where "s = run_basic (NewStats_basic n1 n2) evb"
  from run_basic_counts [OF d, of n1 n2]
  have k: "map fst (b_records s) = sent_seqs_basic evb"
    and c: "b_sent s = of_nat (length (b_records s))"
    "b_received s = of_nat (resolved_basic s)" "length (b_latencies s) = resolved_basic s"
    by (simp_all add: s_def)
  from k have l: "length (b_records s) = length (sent_seqs_basic evb)"
    by (metis length_map)
  have r: "resolved_basic s \<le> length (b_records s)" by (simp add: resolved_basic_def)
  have "length (sent_seqs_basic evb) < 2 ^ 64 \<longrightarrow>
     unat (b_sent s) = length (b_records s) \<and> unat (b_received s) = resolved_basic s \<and>
     unat (b_received s) = length (b_latencies s) \<and> b_received s \<le> b_sent s"
    using l r c by (auto simp: unat_of_nat64 of_nat64_mono)
  with l r c show "let s = run_basic (NewStats_basic n1 n2) evb
       in length (b_records s) = length (sent_seqs_basic evb) \<and>
          b_sent s = of_nat (length (b_records s)) \<and>
          b_received s = of_nat (resolved_basic s) \<and>
          resolved_basic s = length (b_latencies s) \<and>
          resolved_basic s \<le> length (b_records s) \<and>
          (length (sent_seqs_basic evb) < 2 ^ 64 \<longrightarrow>
             unat (b_sent s) = length (b_records s) \<and> unat (b_received s) = resolved_basic s \<and>
             unat (b_received s) = length (b_latencies s) \<and> b_received s \<le> b_sent s)"
    unfolding Let_def s_def [symmetric] by simp
qed


theorem counters_invariant_witness:
  "distinct (sent_seqs [Sent 1 1000, Sent 2 2000, Received 1 3001000 0, Received 1 5 5,
       Received 9 1 1]) \<and>
   unat (sent (run (NewStats 100 0) [Sent 1 1000, Sent 2 2000, Received 1 3001000 0,
       Received 1 5 5, Received 9 1 1])) = 2 \<and>
   unat (received (run (NewStats 100 0) [Sent 1 1000, Sent 2 2000, Received 1 3001000 0,
       Received 1 5 5, Received 9 1 1])) = 1 \<and>
   resolved (run (NewStats 100 0) [Sent 1 1000, Sent 2 2000, Received 1 3001000 0,
       Received 1 5 5, Received 9 1 1]) = 1 \<and>
   latencies (run (NewStats 100 0) [Sent 1 1000, Sent 2 2000, Received 1 3001000 0,
       Received 1 5 5, Received 9 1 1]) = [3] \<and>
   distinct (sent_seqs_basic [Sent_basic 1 1000, Received_basic 1 3001000, Sent_basic 2 0,
       Received_basic 1 7]) \<and>
   unat (b_sent (run_basic (NewStats_basic 0 0) [Sent_basic 1 1000, Received_basic 1 3001000,
       Sent_basic 2 0, Received_basic 1 7])) = 2 \<and>
   unat (b_received (run_basic (NewStats_basic 0 0) [Sent_basic 1 1000,
       Received_basic 1 3001000, Sent_basic 2 0, Received_basic 1 7])) = 1 \<and>
   resolved_basic (run_basic (NewStats_basic 0 0) [Sent_basic 1 1000, Received_basic 1 3001000,
       Sent_basic 2 0, Received_basic 1 7]) = 1 \<and>
   b_latencies (run_basic (NewStats_basic 0 0) [Sent_basic 1 1000, Received_basic 1 3001000,
       Sent_basic 2 0, Received_basic 1 7]) = [3]"
  using counters_invariant [of "[Sent 1 1000, Sent 2 2000, Received 1 3001000 0, Received 1 5 5,
       Received 9 1 1]" 100 0
      "[Sent_basic 1 1000, Received_basic 1 3001000, Sent_basic 2 0, Received_basic 1 7]" 0 0]
  by (simp add: run_def run_basic_def NewStats_def NewStats_basic_def RecordSent_def
      RecordSent_basic_def RecordReceived_def RecordReceived_basic_def Let_def resolved_def
      resolved_basic_def Millisecond_def)

lemma RecordSent_net:
  assumes "\<forall>kv\<in>set (records s). NetLatencyMs (snd kv) = max 0 (LatencyMs (snd kv) - ServerProcMs (snd kv))"
  shows "\<forall>kv\<in>set (records (RecordSent s k t)).
           NetLatencyMs (snd kv) = max 0 (LatencyMs (snd kv) - ServerProcMs (snd kv))"
proof
  fix kv assume "kv \<in> set (records (RecordSent s k t))"
  then have "kv \<in> insert (k, \<lparr>SeqNum = k, SentTime = t, RecvTime = 0, LatencyMs = 0,
      ServerProcMs = 0, NetLatencyMs = 0, Lost = True, Late = False\<rparr>) (set (records s))"
    using update_present_set by (fastforce simp: RecordSent_def)
  with assms show "NetLatencyMs (snd kv) = max 0 (LatencyMs (snd kv) - ServerProcMs (snd kv))"
    by auto
qed

lemma RecordReceived_net:
  assumes "\<forall>kv\<in>set (records s). NetLatencyMs (snd kv) = max 0 (LatencyMs (snd kv) - ServerProcMs (snd kv))"
  shows "\<forall>kv\<in>set (records (RecordReceived s k t p)).
           NetLatencyMs (snd kv) = max 0 (LatencyMs (snd kv) - ServerProcMs (snd kv))"
proof (cases "map_of (records s) k")
  case None
  then show ?thesis using assms by (simp add: RecordReceived_unknown)
next
  case (Some rcd)
  show ?thesis
  proof (cases "Lost rcd")
    case False
    with Some show ?thesis using assms by (simp add: RecordReceived_resolved)
  next
    case True
    define rcd' where "rcd' = rcd\<lparr>RecvTime := t,
              LatencyMs := real_of_int (sint (t - SentTime rcd)) / 1000000,
              ServerProcMs := real_of_int (sint p) / 1000000,
              NetLatencyMs := max 0 (real_of_int (sint (t - SentTime rcd)) / 1000000
                                     - real_of_int (sint p) / 1000000),
              Lost := False,
              Late := (real_of_int (sint (t - SentTime rcd)) / 1000000 > lateThreshold s
                       \<or> Late rcd)\<rparr>"
    have "records (RecordReceived s k t p) = AList.update k rcd' (records s)"
      using Some True
      by (simp add: RecordReceived_def Let_def rcd'_def Millisecond_def max_def)
    then have sub: "set (records (RecordReceived s k t p)) \<subseteq> insert (k, rcd') (set (records s))"
      by (simp add: update_present_set)
    have "NetLatencyMs rcd' = max 0 (LatencyMs rcd' - ServerProcMs rcd')"
      by (simp add: rcd'_def)
    with assms sub show ?thesis by auto
  qed
qed

lemma run_net:
  "\<forall>kv\<in>set (records (run (NewStats thr now) evs)).
     NetLatencyMs (snd kv) = max 0 (LatencyMs (snd kv) - ServerProcMs (snd kv))"
proof (induction evs rule: rev_induct)
  case Nil
  show ?case by (simp add: run_def NewStats_def)
next
  case (snoc e evs)
  show ?case
  proof (cases e)
    case (Sent k t)
    with RecordSent_net [OF snoc.IH] show ?thesis by (simp add: run_snoc)
  next
    case (Received k t p)
    with RecordReceived_net [OF snoc.IH] show ?thesis by (simp add: run_snoc)
  qed
qed

text \<open>
  Claim C9.  A receive that resolves a record stores the round-trip latency, the server
  processing time and the net latency \<open>max(0, LatencyMs - ServerProcMs)\<close>; the stored
  \<open>NetLatencyMs\<close> of every record of every run is this value and is never negative.
\<close>

theorem NetLatencyMs_floored:
  "(\<forall>rcd. map_of (records s) seqNum = Some rcd \<and> Lost rcd \<longrightarrow>
      (\<exists>rcd'. map_of (records (RecordReceived s seqNum t p)) seqNum = Some rcd' \<and>
         \<not> Lost rcd' \<and>
         LatencyMs rcd' = real_of_int (sint (t - SentTime rcd)) / 1000000 \<and>
         ServerProcMs rcd' = real_of_int (sint p) / 1000000 \<and>
         NetLatencyMs rcd' = max 0 (LatencyMs rcd' - ServerProcMs rcd') \<and>
         0 \<le> NetLatencyMs rcd')) \<and>
   (\<forall>r\<in>set (GetRecords (run (NewStats thr now) evs)).
      NetLatencyMs r = max 0 (LatencyMs r - ServerProcMs r) \<and> 0 \<le> NetLatencyMs r)"
proof (intro conjI allI impI ballI)
  fix rcd assume "map_of (records s) seqNum = Some rcd \<and> Lost rcd"
  then show "\<exists>rcd'. map_of (records (RecordReceived s seqNum t p)) seqNum = Some rcd' \<and>
         \<not> Lost rcd' \<and>
         LatencyMs rcd' = real_of_int (sint (t - SentTime rcd)) / 1000000 \<and>
         ServerProcMs rcd' = real_of_int (sint p) / 1000000 \<and>
         NetLatencyMs rcd' = max 0 (LatencyMs rcd' - ServerProcMs rcd') \<and>
         0 \<le> NetLatencyMs rcd'"
    by (simp add: RecordReceived_first)
next
  fix r assume "r \<in> set (GetRecords (run (NewStats thr now) evs))"
  then obtain kv where "kv \<in> set (records (run (NewStats thr now) evs))" "r = snd kv"
    by (auto simp: GetRecords_def)
  with run_net [of thr now evs]
  show n: "NetLatencyMs r = max 0 (LatencyMs r - ServerProcMs r)" by blast
  then show "0 \<le> NetLatencyMs r" by simp
qed

theorem NetLatencyMs_floored_witness:
  "map_of (records (RecordReceived (RecordSent (NewStats 100 0) 1 1000) 1 3001000 5000000)) 1 =
     Some \<lparr>SeqNum = 1, SentTime = 1000, RecvTime = 3001000, LatencyMs = 3,
           ServerProcMs = 5, NetLatencyMs = 0, Lost = False, Late = False\<rparr> \<and>
   GetRecords (run (NewStats 100 0) [Sent 1 1000, Sent 2 2000, Received 2 9002000 4000000]) =
     [\<lparr>SeqNum = 1, SentTime = 1000, RecvTime = 0, LatencyMs = 0,
           ServerProcMs = 0, NetLatencyMs = 0, Lost = True, Late = False\<rparr>,
      \<lparr>SeqNum = 2, SentTime = 2000, RecvTime = 9002000, LatencyMs = 9,
           ServerProcMs = 4, NetLatencyMs = 5, Lost = False, Late = False\<rparr>]"
  using NetLatencyMs_floored [of "RecordSent (NewStats 100 0) 1 1000" 1 3001000 5000000 100 0
      "[Sent 1 1000, Sent 2 2000, Received 2 9002000 4000000]"]
  by (simp add: run_def NewStats_def RecordSent_def RecordReceived_def Let_def GetRecords_def
      Millisecond_def)

lemma run_unanswered:
  assumes "distinct (sent_seqs evs)" "set (received_seqs evs) \<inter> set (sent_seqs evs) = {}"
  shows "map fst (records (run (NewStats thr now) evs)) = sent_seqs evs \<and>
         (\<forall>kv\<in>set (records (run (NewStats thr now) evs)).
            SeqNum (snd kv) = fst kv \<and> Lost (snd kv) \<and> RecvTime (snd kv) = 0) \<and>
         sent (run (NewStats thr now) evs) = of_nat (length (sent_seqs evs)) \<and>
         received (run (NewStats thr now) evs) = 0 \<and>
         late (run (NewStats thr now) evs) = 0 \<and>
         lateThreshold (run (NewStats thr now) evs) = thr \<and>
         latencies (run (NewStats thr now) evs) = [] \<and>
         netLatencies (run (NewStats thr now) evs) = [] \<and>
         serverProc (run (NewStats thr now) evs) = []"
  using assms
proof (induction evs rule: rev_induct)
  case Nil
  show ?case by (simp add: run_def NewStats_def)
next
  case (snoc e evs)
  then have d: "distinct (sent_seqs evs)"
    and i: "set (received_seqs evs) \<inter> set (sent_seqs evs) = {}"
    by (auto simp: sent_seqs_append received_seqs_append)
  note ih = snoc.IH [OF d i]
  define s where "s = run (NewStats thr now) evs"
  show ?case
  proof (cases e)
    case (Sent k t)
    with snoc.prems have "k \<notin> set (sent_seqs evs)" by (simp add: sent_seqs_append)
    with ih have "k \<notin> fst ` set (records s)" unfolding s_def by (metis set_map)
    then have "records (RecordSent s k t) = records s @
      [(k, \<lparr>SeqNum = k, SentTime = t, RecvTime = 0, LatencyMs = 0, ServerProcMs = 0,
            NetLatencyMs = 0, Lost = True, Late = False\<rparr>)]"
      by (simp add: RecordSent_def update_absent)
    moreover have "sent (RecordSent s k t) = sent s + 1" "received (RecordSent s k t) = received s"
      "late (RecordSent s k t) = late s" "lateThreshold (RecordSent s k t) = lateThreshold s"
      "latencies (RecordSent s k t) = latencies s" "netLatencies (RecordSent s k t) = netLatencies s"
      "serverProc (RecordSent s k t) = serverProc s"
      by (simp_all add: RecordSent_def)
    ultimately show ?thesis
      using ih unfolding s_def [symmetric]
      by (simp add: run_snoc Sent sent_seqs_append s_def [symmetric])
  next
    case (Received k t p)
    with snoc.prems have "k \<notin> set (sent_seqs evs)"
      by (auto simp: sent_seqs_append received_seqs_append)
    with ih have "map_of (records s) k = None"
      unfolding s_def by (simp add: map_of_None_keys)
    then have "RecordReceived s k t p = s" by (rule RecordReceived_unknown)
    then show ?thesis
      using ih unfolding s_def [symmetric]
      by (simp add: run_snoc Received sent_seqs_append s_def [symmetric])
  qed
qed

lemma PrintSummary_unanswered:
  assumes "sent s = 10" "received s = 0" "late s = 0" "latencies s = []" "netLatencies s = []"
    "serverProc s = []"
  shows "PrintSummary s = Inr [SummaryHeader, PacketsLine 10 0 10 100 0 0,
           LateThresholdLine (lateThreshold s), RTTNoData, ServerProcNoData]"
  using assms by (simp add: PrintSummary_def Let_def)


text \<open>
  Claim C7.  A run on a fresh aggregator with ten sends of pairwise distinct sequence
  numbers, in which no receive carries one of the sent sequence numbers: \<open>PrintSummary\<close>
  prints 10 sent, 0 received, 10 lost, 100 percent loss and the line "RTT: no data" instead
  of latency numbers, and \<open>GetRecords\<close> returns ten records, one for each sent sequence
  number, each with \<open>Lost = true\<close> and \<open>RecvTime = 0\<close>.
\<close>

theorem all_lost_summary:
  "distinct (sent_seqs evs) \<and> length (sent_seqs evs) = 10 \<and>
   set (received_seqs evs) \<inter> set (sent_seqs evs) = {} \<longrightarrow>
     PrintSummary (run (NewStats thr now) evs) =
       Inr [SummaryHeader, PacketsLine 10 0 10 100 0 0, LateThresholdLine thr, RTTNoData,
            ServerProcNoData] \<and>
     length (GetRecords (run (NewStats thr now) evs)) = 10 \<and>
     distinct (map SeqNum (GetRecords (run (NewStats thr now) evs))) \<and>
     set (map SeqNum (GetRecords (run (NewStats thr now) evs))) = set (sent_seqs evs) \<and>
     (\<forall>r\<in>set (GetRecords (run (NewStats thr now) evs)). Lost r \<and> RecvTime r = 0)"
proof (intro impI)
  assume h: "distinct (sent_seqs evs) \<and> length (sent_seqs evs) = 10 \<and>
    set (received_seqs evs) \<inter> set (sent_seqs evs) = {}"
  define s where "s = run (NewStats thr now) evs"
  from h run_unanswered [of evs thr now]
  have k: "map fst (records s) = sent_seqs evs"
    and r: "\<forall>kv\<in>set (records s). SeqNum (snd kv) = fst kv \<and> Lost (snd kv) \<and> RecvTime (snd kv) = 0"
    and c: "sent s = 10" "received s = 0" "late s = 0" "lateThreshold s = thr"
      "latencies s = []" "netLatencies s = []" "serverProc s = []"
    by (simp_all add: s_def)
  from r have "map (SeqNum \<circ> snd) (records s) = map fst (records s)"
    by simp
  with k have q: "map SeqNum (GetRecords s) = sent_seqs evs"
    by (simp add: GetRecords_def)
  have "PrintSummary s = Inr [SummaryHeader, PacketsLine 10 0 10 100 0 0, LateThresholdLine thr,
      RTTNoData, ServerProcNoData]"
    using PrintSummary_unanswered [of s] c by simp
  moreover have "length (GetRecords s) = 10"
    using q h by (metis length_map)
  moreover have "distinct (map SeqNum (GetRecords s))"
    "set (map SeqNum (GetRecords s)) = set (sent_seqs evs)"
    using q h by simp_all
  moreover have "\<forall>r\<in>set (GetRecords s). Lost r \<and> RecvTime r = 0"
    using r by (auto simp: GetRecords_def)
  ultimately show "PrintSummary (run (NewStats thr now) evs) =
       Inr [SummaryHeader, PacketsLine 10 0 10 100 0 0, LateThresholdLine thr, RTTNoData,
            ServerProcNoData] \<and>
     length (GetRecords (run (NewStats thr now) evs)) = 10 \<and>
     distinct (map SeqNum (GetRecords (run (NewStats thr now) evs))) \<and>
     set (map SeqNum (GetRecords (run (NewStats thr now) evs))) = set (sent_seqs evs) \<and>
     (\<forall>r\<in>set (GetRecords (run (NewStats thr now) evs)). Lost r \<and> RecvTime r = 0)"
    unfolding s_def by simp
qed

theorem all_lost_summary_witness:
  "distinct (sent_seqs [Sent 1 10, Sent 2 20, Received 77 25 0, Sent 3 30, Sent 4 40, Sent 5 50,
      Sent 6 60, Sent 7 70, Sent 8 80, Sent 9 90, Sent 10 100]) \<and>
   length (sent_seqs [Sent 1 10, Sent 2 20, Received 77 25 0, Sent 3 30, Sent 4 40, Sent 5 50,
      Sent 6 60, Sent 7 70, Sent 8 80, Sent 9 90, Sent 10 100]) = 10 \<and>
   PrintSummary (run (NewStats 100 0) [Sent 1 10, Sent 2 20, Received 77 25 0, Sent 3 30,
      Sent 4 40, Sent 5 50, Sent 6 60, Sent 7 70, Sent 8 80, Sent 9 90, Sent 10 100]) =
     Inr [SummaryHeader, PacketsLine 10 0 10 100 0 0, LateThresholdLine 100, RTTNoData,
          ServerProcNoData] \<and>
   map SeqNum (GetRecords (run (NewStats 100 0) [Sent 1 10, Sent 2 20, Received 77 25 0,
      Sent 3 30, Sent 4 40, Sent 5 50, Sent 6 60, Sent 7 70, Sent 8 80, Sent 9 90,
      Sent 10 100])) = [1, 2, 3, 4, 5, 6, 7, 8, 9, 10] \<and>
   map Lost (GetRecords (run (NewStats 100 0) [Sent 1 10, Sent 2 20, Received 77 25 0,
      Sent 3 30, Sent 4 40, Sent 5 50, Sent 6 60, Sent 7 70, Sent 8 80, Sent 9 90,
      Sent 10 100])) = [True, True, True, True, True, True, True, True, True, True] \<and>
   map RecvTime (GetRecords (run (NewStats 100 0) [Sent 1 10, Sent 2 20, Received 77 25 0,
      Sent 3 30, Sent 4 40, Sent 5 50, Sent 6 60, Sent 7 70, Sent 8 80, Sent 9 90,
      Sent 10 100])) = [0, 0, 0, 0, 0, 0, 0, 0, 0, 0]"
proof -
  have e: "run (NewStats 100 0) [Sent 1 10, Sent 2 20, Received 77 25 0, Sent 3 30,
      Sent 4 40, Sent 5 50, Sent 6 60, Sent 7 70, Sent 8 80, Sent 9 90, Sent 10 100] =
    (NewStats 100 0)\<lparr>sent := 10, windowSent := 10,
      records := map (\<lambda>(k, t). (k, \<lparr>SeqNum = k, SentTime = t, RecvTime = 0, LatencyMs = 0,
          ServerProcMs = 0, NetLatencyMs = 0, Lost = True, Late = False\<rparr>))
        [(1, 10), (2, 20), (3, 30), (4, 40), (5, 50), (6, 60), (7, 70), (8, 80), (9, 90),
         (10, 100)]\<rparr>"
    by (simp add: run_def NewStats_def RecordSent_def RecordReceived_def)
  show ?thesis
    using all_lost_summary [of "[Sent 1 10, Sent 2 20, Received 77 25 0, Sent 3 30, Sent 4 40,
      Sent 5 50, Sent 6 60, Sent 7 70, Sent 8 80, Sent 9 90, Sent 10 100]" 100 0]
    unfolding e by (simp add: GetRecords_def NewStats_def)
qed

section \<open>Summary statistics proofs\<close>

lemma index_Inr: "0 \<le> i \<Longrightarrow> i < int (length xs) \<Longrightarrow> index xs i = Inr (xs ! nat i)"
  by (simp add: index_def)

lemma percentile_low: "srt \<noteq> [] \<Longrightarrow> p \<le> 0 \<Longrightarrow> percentile srt p = Inr (srt ! 0)"
  by (simp add: percentile_def index_def)

lemma percentile_high:
  "srt \<noteq> [] \<Longrightarrow> 0 < p \<Longrightarrow> 100 \<le> p \<Longrightarrow> percentile srt p = Inr (srt ! (length srt - 1))"
  by (auto simp: percentile_def index_def nat_diff_distrib')

lemma pos_bounds:
  fixes p :: real
  assumes "srt \<noteq> []" "0 < p" "p < 100"
  defines "pos \<equiv> p / 100 * real_of_int (int (length srt) - 1)"
  shows "0 \<le> \<lfloor>pos\<rfloor>" "\<lfloor>pos\<rfloor> < int (length srt)" "0 \<le> \<lceil>pos\<rceil>" "\<lceil>pos\<rceil> < int (length srt)"
proof -
  have n: "1 \<le> int (length srt)" using assms(1) by (cases srt) simp_all
  then have m: "0 \<le> real_of_int (int (length srt) - 1)" by simp
  have p0: "0 \<le> pos" unfolding pos_def using assms(2) m by simp
  have "p / 100 \<le> 1" using assms(3) by simp
  then have "pos \<le> 1 * real_of_int (int (length srt) - 1)"
    unfolding pos_def using m by (rule mult_right_mono)
  then have p1: "pos \<le> real_of_int (int (length srt) - 1)" by simp
  show "0 \<le> \<lfloor>pos\<rfloor>" using p0 by simp
  show "0 \<le> \<lceil>pos\<rceil>" using p0 by (simp add: ceiling_le_iff le_ceiling_iff)
  have "\<lceil>pos\<rceil> \<le> int (length srt) - 1" using p1 by (simp only: ceiling_le_iff)
  then show c: "\<lceil>pos\<rceil> < int (length srt)" by simp
  show "\<lfloor>pos\<rfloor> < int (length srt)"
    using floor_le_ceiling [of pos] c by linarith
qed

lemma percentile_mid:
  fixes p :: real
  assumes "srt \<noteq> []" "0 < p" "p < 100"
  defines "pos \<equiv> p / 100 * real_of_int (int (length srt) - 1)"
  shows "percentile srt p =
     Inr (srt ! nat \<lfloor>pos\<rfloor> * (1 - (pos - real_of_int \<lfloor>pos\<rfloor>))
          + srt ! nat \<lceil>pos\<rceil> * (pos - real_of_int \<lfloor>pos\<rfloor>))"
proof -
  note b = pos_bounds [OF assms(1-3), folded pos_def]
  have lo: "index srt \<lfloor>pos\<rfloor> = Inr (srt ! nat \<lfloor>pos\<rfloor>)"
    and up: "index srt \<lceil>pos\<rceil> = Inr (srt ! nat \<lceil>pos\<rceil>)"
    using b by (simp_all add: index_Inr)
  have "percentile srt p =
      (if \<lfloor>pos\<rfloor> = \<lceil>pos\<rceil> then index srt \<lfloor>pos\<rfloor>
       else case index srt \<lfloor>pos\<rfloor> of
              Inl e \<Rightarrow> Inl e
            | Inr a \<Rightarrow>
                (case index srt \<lceil>pos\<rceil> of
                   Inl e \<Rightarrow> Inl e
                 | Inr b \<Rightarrow> Inr (a * (1 - (pos - real_of_int \<lfloor>pos\<rfloor>))
                                + b * (pos - real_of_int \<lfloor>pos\<rfloor>))))"
    unfolding percentile_def Let_def pos_def [symmetric]
    using assms(1-3) by simp
  also have "\<dots> = Inr (srt ! nat \<lfloor>pos\<rfloor> * (1 - (pos - real_of_int \<lfloor>pos\<rfloor>))
          + srt ! nat \<lceil>pos\<rceil> * (pos - real_of_int \<lfloor>pos\<rfloor>))"
  proof (cases "\<lfloor>pos\<rfloor> = \<lceil>pos\<rceil>")
    case True
    then have e: "real_of_int \<lfloor>pos\<rfloor> = pos"
      by (metis of_int_floor_le le_of_int_ceiling order_antisym)
    have "srt ! nat \<lfloor>pos\<rfloor> * (1 - (pos - real_of_int \<lfloor>pos\<rfloor>))
          + srt ! nat \<lceil>pos\<rceil> * (pos - real_of_int \<lfloor>pos\<rfloor>) = srt ! nat \<lfloor>pos\<rfloor>"
      unfolding e by simp
    with True lo show ?thesis by (simp only: simp_thms if_True)
  next
    case False
    with lo up show ?thesis by simp
  qed
  finally show ?thesis .
qed

lemma sorted_nth_0_Min: "sorted xs \<Longrightarrow> xs \<noteq> [] \<Longrightarrow> xs ! 0 = Min (set xs)"
  by (cases xs) (auto intro!: Min_eqI [symmetric])

lemma sorted_last_Max: "sorted xs \<Longrightarrow> xs \<noteq> [] \<Longrightarrow> xs ! (length xs - 1) = Max (set xs)"
proof -
  assume s: "sorted xs" and n: "xs \<noteq> []"
  have "Max (set xs) = xs ! (length xs - 1)"
  proof (rule Max_eqI)
    show "finite (set xs)" by simp
    show "xs ! (length xs - 1) \<in> set xs" using n by simp
    fix y assume "y \<in> set xs"
    then obtain i where "i < length xs" "y = xs ! i" by (auto simp: in_set_conv_nth)
    then show "y \<le> xs ! (length xs - 1)"
      using s by (simp add: sorted_nth_mono)
  qed
  then show ?thesis by simp
qed


lemma percentile_examples:
  "percentile [10, 20, 30, 40] 50 = Inr 25"
  "percentile [10, 20, 30, 40] 90 = Inr 37"
  "percentile [10, 20, 30, 40] 100 = Inr 40"
  by (simp_all add: percentile_def index_def Let_def)

lemma percentiles_example: "percentiles [40, 10, 30, 20] 50 90 100 = Inr (25, 37, 40)"
proof -
  have "sort [40, 10, 30, 20 :: real] = [10, 20, 30, 40]" by simp
  then show ?thesis by (simp add: percentiles_def Let_def percentile_examples)
qed

text \<open>
  Claim C2.  On a non-empty sorted sample \<open>percentile\<close> returns the minimum for
  \<open>p \<le> 0\<close> and the maximum for \<open>p \<ge> 100\<close>; for \<open>0 < p < 100\<close> it reads the order
  statistics at \<open>floor(pos)\<close> and \<open>ceil(pos)\<close>, both inside the sample, for
  \<open>pos = (p/100) * (n-1)\<close>, and returns their linear interpolation with weight
  \<open>pos - floor(pos)\<close>.  For the sample 10, 20, 30, 40: p50 = 25, p90 = 37, p100 = 40.
\<close>

theorem percentile_interpolates:
  "(srt \<noteq> [] \<and> sorted srt \<longrightarrow>
      (p \<le> 0 \<longrightarrow> percentile srt p = Inr (Min (set srt))) \<and>
      (100 \<le> p \<longrightarrow> percentile srt p = Inr (Max (set srt))) \<and>
      (0 < p \<and> p < 100 \<longrightarrow>
         nat \<lfloor>p / 100 * real (length srt - 1)\<rfloor> < length srt \<and>
         nat \<lceil>p / 100 * real (length srt - 1)\<rceil> < length srt \<and>
         percentile srt p =
           Inr (srt ! nat \<lfloor>p / 100 * real (length srt - 1)\<rfloor>
                  * (1 - (p / 100 * real (length srt - 1)
                          - real_of_int \<lfloor>p / 100 * real (length srt - 1)\<rfloor>))
                + srt ! nat \<lceil>p / 100 * real (length srt - 1)\<rceil>
                  * (p / 100 * real (length srt - 1)
                     - real_of_int \<lfloor>p / 100 * real (length srt - 1)\<rfloor>)))) \<and>
   percentile [10, 20, 30, 40] 50 = Inr 25 \<and>
   percentile [10, 20, 30, 40] 90 = Inr 37 \<and>
   percentile [10, 20, 30, 40] 100 = Inr 40 \<and>
   percentiles [40, 10, 30, 20] 50 90 100 = Inr (25, 37, 40)"
proof (intro conjI impI)
  assume h: "srt \<noteq> [] \<and> sorted srt" and "p \<le> 0"
  then show "percentile srt p = Inr (Min (set srt))"
    by (simp add: percentile_low sorted_nth_0_Min)
next
  assume h: "srt \<noteq> [] \<and> sorted srt" and "100 \<le> p"
  then have "percentile srt p = Inr (srt ! (length srt - 1))"
    by (intro percentile_high) simp_all
  moreover from h have "srt ! (length srt - 1) = Max (set srt)"
    by (intro sorted_last_Max) simp_all
  ultimately show "percentile srt p = Inr (Max (set srt))"
    by simp
next
  assume h: "srt \<noteq> [] \<and> sorted srt" and p: "0 < p \<and> p < 100"
  from h have n: "real_of_int (int (length srt) - 1) = real (length srt - 1)"
    by (cases srt) simp_all
  from h p have ne: "srt \<noteq> []" and p0: "0 < p" and p1: "p < 100" by simp_all
  note b = pos_bounds [OF ne p0 p1, unfolded n]
  from b show "nat \<lfloor>p / 100 * real (length srt - 1)\<rfloor> < length srt" by linarith
  from b show "nat \<lceil>p / 100 * real (length srt - 1)\<rceil> < length srt" by linarith
  from percentile_mid [OF ne p0 p1, unfolded n]
  show "percentile srt p =
           Inr (srt ! nat \<lfloor>p / 100 * real (length srt - 1)\<rfloor>
                  * (1 - (p / 100 * real (length srt - 1)
                          - real_of_int \<lfloor>p / 100 * real (length srt - 1)\<rfloor>))
                + srt ! nat \<lceil>p / 100 * real (length srt - 1)\<rceil>
                  * (p / 100 * real (length srt - 1)
                     - real_of_int \<lfloor>p / 100 * real (length srt - 1)\<rfloor>))" .
qed (simp_all add: percentile_examples percentiles_example)

theorem percentile_interpolates_witness:
  "sorted [10, 20, 30, 40 :: real] \<and>
   percentile [10, 20, 30, 40] (- 3) = Inr 10 \<and>
   percentile [10, 20, 30, 40] 120 = Inr 40 \<and>
   percentile [10, 20, 30, 40] 99 = Inr (397 / 10) \<and>
   percentile [10, 20, 30, 40] 50 = Inr 25"
  using percentile_interpolates [of "[10, 20, 30, 40]" "- 3"]
    percentile_interpolates [of "[10, 20, 30, 40]" 120]
    percentile_interpolates [of "[10, 20, 30, 40]" 99]
  by (simp add: percentile_def index_def Let_def)

lemma foldl_add_sum: "foldl (\<lambda>acc v. acc + f v) a xs = a + (\<Sum>v\<leftarrow>xs. f v)"
  for a :: real
  by (induction xs arbitrary: a) simp_all

lemma jitterSum_sum_list: "jitterSum vals m = (\<Sum>v\<leftarrow>vals. \<bar>v - m\<bar>)"
  by (simp add: jitterSum_def foldl_add_sum)

lemma calcStats_fold:
  "fst (foldl (\<lambda>(total, mn, mx) v.
       (total + v, (if v < mn then v else mn), (if v > mx then v else mx))) (t, mn, mx) vals)
     = t + sum_list vals"
  for t :: real and mn :: real and mx :: real
proof (induction vals arbitrary: t mn mx)
  case Nil
  show ?case by simp
next
  case (Cons a vals)
  have "fst (foldl (\<lambda>(total, mn, mx) v.
       (total + v, (if v < mn then v else mn), (if v > mx then v else mx)))
       (t + a, (if a < mn then a else mn), (if a > mx then a else mx)) vals)
     = (t + a) + sum_list vals"
    by (rule Cons.IH)
  then show ?case by (simp only: foldl_Cons case_prod_conv sum_list.Cons add.assoc)
qed


lemma calcStats_mean_jitter:
  assumes "vals \<noteq> []"
  shows "\<exists>mn mx. calcStats vals =
     (mn, sum_list vals / real (length vals), mx,
      (\<Sum>v\<leftarrow>vals. \<bar>v - sum_list vals / real (length vals)\<bar>) / real (length vals))"
proof -
  define F :: "real \<times> real \<times> real \<Rightarrow> real \<Rightarrow> real \<times> real \<times> real"
    where "F = (\<lambda>(total, mn, mx) v.
       (total + v, (if v < mn then v else mn), (if v > mx then v else mx)))"
  obtain tot mn' mx' where f: "foldl F (0, MaxFloat64, 0) vals = (tot, mn', mx')"
    using prod_cases3 by blast
  from calcStats_fold [of 0 MaxFloat64 0 vals] have "fst (foldl F (0, MaxFloat64, 0) vals) = sum_list vals"
    unfolding F_def by simp
  with f have t: "tot = sum_list vals" by simp
  have "calcStats vals = (case foldl F (0, MaxFloat64, 0) vals of (tt, mn, mx) \<Rightarrow>
      (mn, tt / real (length vals), mx,
       jitterSum vals (tt / real (length vals)) / real (length vals)))"
    unfolding calcStats_def F_def Let_def using assms by simp
  also have "\<dots> = (mn', sum_list vals / real (length vals), mx',
      (\<Sum>v\<leftarrow>vals. \<bar>v - sum_list vals / real (length vals)\<bar>) / real (length vals))"
    unfolding f t by (simp add: jitterSum_sum_list)
  finally show ?thesis by blast
qed


lemma MaxFloat64_gt: "x \<le> 2 ^ 64 \<Longrightarrow> x < MaxFloat64"
proof -
  assume x: "x \<le> 2 ^ 64"
  have "(2::real) ^ 64 < 2 ^ 971" by (rule power_strict_increasing) simp_all
  moreover have "(1::real) * 2 ^ 971 \<le> (2 ^ 53 - 1) * 2 ^ 971"
    by (rule mult_right_mono) simp_all
  ultimately have "(2::real) ^ 64 < (2 ^ 53 - 1) * 2 ^ 971" by (simp only: mult_1_left)
  with x show ?thesis unfolding MaxFloat64_def by (rule le_less_trans)
qed


lemma calcStats_examples:
  "calcStats [50, 50, 50] = (50, 50, 50, 0)"
  "calcStats [10, 20] = (10, 15, 20, 5)"
  "calcStats [10, 20, 30, 40, 50] = (10, 30, 50, 12)"
proof -
  have m: "(50::real) < MaxFloat64" "(10::real) < MaxFloat64"
    by (rule MaxFloat64_gt, simp)+
  show "calcStats [50, 50, 50] = (50, 50, 50, 0)"
    by (simp add: calcStats_def Let_def jitterSum_def m)
  show "calcStats [10, 20] = (10, 15, 20, 5)"
    by (simp add: calcStats_def Let_def jitterSum_def m)
  show "calcStats [10, 20, 30, 40, 50] = (10, 30, 50, 12)"
    by (simp add: calcStats_def Let_def jitterSum_def m)
qed


lemma percentile_total: "\<exists>v. percentile srt p = Inr v"
proof (cases "srt = []")
  case True
  then show ?thesis by (simp add: percentile_def)
next
  case False
  consider "p \<le> 0" | "0 < p" "100 \<le> p" | "0 < p" "p < 100" by linarith
  then show ?thesis
  proof cases
    case 1
    with False show ?thesis by (simp add: percentile_low)
  next
    case 2
    with False show ?thesis by (simp add: percentile_high)
  next
    case 3
    with False show ?thesis using percentile_mid [of srt p] by blast
  qed
qed

lemma percentiles_total: "\<exists>a b c. percentiles vals p50 p90 p99 = Inr (a, b, c)"
proof -
  obtain a b c where "percentile (sort vals) p50 = Inr a" "percentile (sort vals) p90 = Inr b"
    "percentile (sort vals) p99 = Inr c"
    using percentile_total by blast
  then show ?thesis by (simp add: percentiles_def Let_def)
qed

lemma RecordReceived_sumLat:
  assumes "sumLat s = sum_list (latencies s)"
  shows "sumLat (RecordReceived s k t p) = sum_list (latencies (RecordReceived s k t p))"
proof (cases "map_of (records s) k")
  case None
  then show ?thesis using assms by (simp add: RecordReceived_unknown)
next
  case (Some rcd)
  then show ?thesis
    using assms by (cases "Lost rcd") (simp_all add: RecordReceived_def Let_def)
qed

lemma run_sumLat:
  "sumLat (run (NewStats thr now) evs) = sum_list (latencies (run (NewStats thr now) evs))"
proof (induction evs rule: rev_induct)
  case Nil
  show ?case by (simp add: run_def NewStats_def)
next
  case (snoc e evs)
  show ?case
  proof (cases e)
    case (Sent k t)
    with snoc.IH show ?thesis by (simp add: run_snoc RecordSent_def)
  next
    case (Received k t p)
    with RecordReceived_sumLat [OF snoc.IH] show ?thesis by (simp add: run_snoc)
  qed
qed

lemma PrintSummary_jitter:
  assumes "latencies s \<noteq> []" "sumLat s = sum_list (latencies s)"
  shows "\<exists>pre p50 p90 p99 rest. PrintSummary s =
     Inr (pre @ RTTLine (minLat s) (sum_list (latencies s) / real (length (latencies s)))
                  (maxLat s) p50 p90 p99
          # JitterLine ((\<Sum>v\<leftarrow>latencies s.
                \<bar>v - sum_list (latencies s) / real (length (latencies s))\<bar>)
              / real (length (latencies s)))
          # rest)"
proof -
  obtain a b c where l: "percentiles (latencies s) 50 90 99 = Inr (a, b, c)"
    using percentiles_total by blast
  obtain a' b' c' where n: "percentiles (netLatencies s) 50 90 99 = Inr (a', b', c')"
    using percentiles_total by blast
  have "PrintSummary s = Inr ([SummaryHeader,
        PacketsLine (sent s) (received s) (sent s - received s)
          (if sent s > 0 then real (unat (sent s - received s)) / real (unat (sent s)) * 100 else 0)
          (late s)
          (if sent s > 0 then real (unat (late s)) / real (unat (sent s)) * 100 else 0),
        LateThresholdLine (lateThreshold s)]
      @ RTTLine (minLat s) (sum_list (latencies s) / real (length (latencies s)))
                  (maxLat s) a b c
      # JitterLine ((\<Sum>v\<leftarrow>latencies s.
                \<bar>v - sum_list (latencies s) / real (length (latencies s))\<bar>)
              / real (length (latencies s)))
      # ((if length (netLatencies s) > 0
          then [NetClientLine (minNet s) (sumNet s / real (length (netLatencies s)))
                  (maxNet s) a' b' c']
          else [])
         @ (if length (serverProc s) > 0
            then [ServerProcLine (minServer s)
                    (sumServer s / real (length (serverProc s))) (maxServer s)]
            else [ServerProcNoData])))"
    using assms by (simp add: PrintSummary_def Let_def l n jitterSum_sum_list)
  then show ?thesis by blast
qed


lemma five_answered:
  "PrintSummary (run (NewStats 100 0)
      [Sent 1 0, Sent 2 0, Sent 3 0, Sent 4 0, Sent 5 0,
       Received 1 10000000 0, Received 2 20000000 0, Received 3 30000000 0,
       Received 4 40000000 0, Received 5 50000000 0]) =
   Inr [SummaryHeader, PacketsLine 5 5 0 0 0 0, LateThresholdLine 100,
        RTTLine 10 30 50 30 46 (248 / 5), JitterLine 12,
        NetClientLine 10 30 50 30 46 (248 / 5), ServerProcLine 0 0 0]"
proof -
  define s where "s = run (NewStats 100 0)
      [Sent 1 0, Sent 2 0, Sent 3 0, Sent 4 0, Sent 5 0,
       Received 1 10000000 0, Received 2 20000000 0, Received 3 30000000 0,
       Received 4 40000000 0, Received 5 50000000 0]"
  have m: "(10::real) < MaxFloat64" "(0::real) < MaxFloat64"
    by (rule MaxFloat64_gt, simp)+
  have f: "sent s = 5" "received s = 5" "late s = 0" "lateThreshold s = 100"
    "latencies s = [10, 20, 30, 40, 50]" "netLatencies s = [10, 20, 30, 40, 50]"
    "serverProc s = [0, 0, 0, 0, 0]"
    "minLat s = 10" "maxLat s = 50" "sumLat s = 150"
    "minNet s = 10" "maxNet s = 50" "sumNet s = 150"
    "minServer s = 0" "maxServer s = 0" "sumServer s = 0"
    by (simp_all add: s_def run_def NewStats_def RecordSent_def RecordReceived_def Let_def
        Millisecond_def m)
  have q: "sort [10, 20, 30, 40, 50 :: real] = [10, 20, 30, 40, 50]" by simp
  have p: "percentiles [10, 20, 30, 40, 50] 50 90 99 = Inr (30, 46, 248 / 5)"
    by (simp add: percentiles_def Let_def q percentile_def index_def)
  have "PrintSummary s =
   Inr [SummaryHeader, PacketsLine 5 5 0 0 0 0, LateThresholdLine 100,
        RTTLine 10 30 50 30 46 (248 / 5), JitterLine 12,
        NetClientLine 10 30 50 30 46 (248 / 5), ServerProcLine 0 0 0]"
    by (simp add: PrintSummary_def Let_def f p jitterSum_def)
  then show ?thesis by (simp only: s_def)
qed

text \<open>
  Claim C8.  Jitter is the mean absolute deviation of the latencies from their mean:
  \<open>calcStats\<close> returns the mean and this jitter for every non-empty sample, and so does the
  jitter line of \<open>PrintSummary\<close> after every run with at least one resolved packet.  The
  sample 50, 50, 50 has jitter 0, the sample 10, 20 has jitter 5, and five packets answered
  with latencies 10, 20, 30, 40, 50 ms are summarised as min 10, avg 30, max 50, jitter 12.
\<close>

theorem jitter_mean_absolute_deviation:
  "(vals \<noteq> [] \<longrightarrow>
      (\<exists>mn mx. calcStats vals =
         (mn, sum_list vals / real (length vals), mx,
          (\<Sum>v\<leftarrow>vals. \<bar>v - sum_list vals / real (length vals)\<bar>) / real (length vals)))) \<and>
   calcStats [50, 50, 50] = (50, 50, 50, 0) \<and>
   calcStats [10, 20] = (10, 15, 20, 5) \<and>
   calcStats [10, 20, 30, 40, 50] = (10, 30, 50, 12) \<and>
   (latencies (run (NewStats thr now) evs) \<noteq> [] \<longrightarrow>
      (\<exists>pre p50 p90 p99 rest. PrintSummary (run (NewStats thr now) evs) =
         Inr (pre @ RTTLine (minLat (run (NewStats thr now) evs))
                      (sum_list (latencies (run (NewStats thr now) evs))
                         / real (length (latencies (run (NewStats thr now) evs))))
                      (maxLat (run (NewStats thr now) evs)) p50 p90 p99
              # JitterLine ((\<Sum>v\<leftarrow>latencies (run (NewStats thr now) evs).
                    \<bar>v - sum_list (latencies (run (NewStats thr now) evs))
                           / real (length (latencies (run (NewStats thr now) evs)))\<bar>)
                  / real (length (latencies (run (NewStats thr now) evs))))
              # rest))) \<and>
   PrintSummary (run (NewStats 100 0)
      [Sent 1 0, Sent 2 0, Sent 3 0, Sent 4 0, Sent 5 0,
       Received 1 10000000 0, Received 2 20000000 0, Received 3 30000000 0,
       Received 4 40000000 0, Received 5 50000000 0]) =
   Inr [SummaryHeader, PacketsLine 5 5 0 0 0 0, LateThresholdLine 100,
        RTTLine 10 30 50 30 46 (248 / 5), JitterLine 12,
        NetClientLine 10 30 50 30 46 (248 / 5), ServerProcLine 0 0 0]"
proof (intro conjI impI)
  assume "vals \<noteq> []"
  then show "\<exists>mn mx. calcStats vals =
         (mn, sum_list vals / real (length vals), mx,
          (\<Sum>v\<leftarrow>vals. \<bar>v - sum_list vals / real (length vals)\<bar>) / real (length vals))"
    by (rule calcStats_mean_jitter)
next
  assume "latencies (run (NewStats thr now) evs) \<noteq> []"
  then show "\<exists>pre p50 p90 p99 rest. PrintSummary (run (NewStats thr now) evs) =
         Inr (pre @ RTTLine (minLat (run (NewStats thr now) evs))
                      (sum_list (latencies (run (NewStats thr now) evs))
                         / real (length (latencies (run (NewStats thr now) evs))))
                      (maxLat (run (NewStats thr now) evs)) p50 p90 p99
              # JitterLine ((\<Sum>v\<leftarrow>latencies (run (NewStats thr now) evs).
                    \<bar>v - sum_list (latencies (run (NewStats thr now) evs))
                           / real (length (latencies (run (NewStats thr now) evs)))\<bar>)
                  / real (length (latencies (run (NewStats thr now) evs))))
              # rest)"
    using run_sumLat by (rule PrintSummary_jitter)
qed (simp_all only: calcStats_examples five_answered)

theorem jitter_mean_absolute_deviation_witness:
  "calcStats [1, 2, 6] = (1, 3, 6, 2) \<and>
   latencies (run (NewStats 100 0) [Sent 1 0, Received 1 10000000 0]) = [10] \<and>
   PrintSummary (run (NewStats 100 0) [Sent 1 0, Received 1 10000000 0]) =
     Inr [SummaryHeader, PacketsLine 1 1 0 0 0 0, LateThresholdLine 100,
          RTTLine 10 10 10 10 10 10, JitterLine 0,
          NetClientLine 10 10 10 10 10 10, ServerProcLine 0 0 0]"
proof -
  have m: "(10::real) < MaxFloat64" "(0::real) < MaxFloat64" "(1::real) < MaxFloat64"
    by (rule MaxFloat64_gt, simp)+
  show ?thesis
    using jitter_mean_absolute_deviation [of "[1, 2, 6]" 100 0 "[Sent 1 0, Received 1 10000000 0]"]
    by (simp add: calcStats_def jitterSum_def run_def NewStats_def RecordSent_def
        RecordReceived_def Let_def Millisecond_def m PrintSummary_def percentiles_def
        percentile_def index_def)
qed

section \<open>CSV export proofs\<close>

lemma sdiv_ms_bounds:
  fixes k :: int
  assumes "- (2 ^ 63) \<le> k" "k < 2 ^ 63"
  shows "- (2 ^ 63) \<le> k sdiv 1000000" "k sdiv 1000000 < 2 ^ 63"
proof -
  have b: "0 \<le> \<bar>k\<bar> div 1000000" by simp
  have c: "\<bar>k\<bar> div 1000000 < 2 ^ 63"
  proof -
    have "\<bar>k\<bar> \<le> 2 ^ 63" using assms by simp
    then have "\<bar>k\<bar> div 1000000 \<le> 2 ^ 63 div 1000000" by (rule zdiv_mono1) simp
    also have "\<dots> < (2::int) ^ 63" by simp
    finally show ?thesis .
  qed
  show "- (2 ^ 63) \<le> k sdiv 1000000" "k sdiv 1000000 < 2 ^ 63"
    using b c by (cases "k < 0"; simp add: signed_divide_int_def sgn_if)+
qed


lemma sint_div_int64_ms: "sint (div_int64 a 1000000) = sint a sdiv 1000000"
proof -
  have r: "- (2 ^ 63) \<le> sint a" "sint a < 2 ^ 63"
    using sint_ge [of a] sint_lt [of a] by simp_all
  have "sint (div_int64 a 1000000) = signed_take_bit 63 (sint a sdiv 1000000)"
    by (simp add: div_int64_def sint_sbintrunc')
  also have "\<dots> = sint a sdiv 1000000"
    by (rule signed_take_bit_int_eq_self) (rule sdiv_ms_bounds [OF r])+
  finally show ?thesis .
qed

lemma div_int64_ms_floor:
  assumes "0 \<le> sint a"
  shows "sint (div_int64 a 1000000) * 1000000 \<le> sint a"
    and "sint a < (sint (div_int64 a 1000000) + 1) * 1000000"
proof -
  have e: "sint (div_int64 a 1000000) = sint a div 1000000"
    using assms by (simp add: sint_div_int64_ms signed_divide_int_def sgn_if)
  show "sint (div_int64 a 1000000) * 1000000 \<le> sint a"
    unfolding e by simp
  show "sint a < (sint (div_int64 a 1000000) + 1) * 1000000"
  proof -
    have "sint a mod 1000000 < 1000000" by simp
    with div_mult_mod_eq [of "sint a" 1000000]
    have "sint a < sint a div 1000000 * 1000000 + 1000000" by linarith
    then show ?thesis unfolding e by (simp add: distrib_right)
  qed
qed


text \<open>
  Claim C5.  In the extended variant the CSV export has the columns seq, sent_time,
  recv_time, latency_ms, lost, server_proc_ms, net_latency_ms and late, and one row of eight
  cells for each record of \<open>GetRecords\<close>, in that order of columns.  The sent_time
  and recv_time cells are the timestamps in milliseconds since the epoch: the decimal numeral
  of the nanosecond value divided by 1000000, truncated, which for a non-negative timestamp is
  the number of whole milliseconds.  Without the columns server_proc_ms and net_latency_ms
  it is the export of the late-threshold \<open>saveCSV\<close>.
\<close>

theorem saveCSV_extended_columns:
  "hd (saveCSV_extended s) =
     map Str [''seq'', ''sent_time'', ''recv_time'', ''latency_ms'', ''lost'',
              ''server_proc_ms'', ''net_latency_ms'', ''late''] \<and>
   length (tl (saveCSV_extended s)) = length (GetRecords s) \<and>
   (\<forall>i<length (GetRecords s).
      tl (saveCSV_extended s) ! i =
        [Str (FormatUint (SeqNum (GetRecords s ! i))),
         Str (FormatInt (div_int64 (SentTime (GetRecords s ! i)) 1000000)),
         Str (FormatInt (div_int64 (RecvTime (GetRecords s ! i)) 1000000)),
         Sprintf_2f (LatencyMs (GetRecords s ! i)),
         Str (FormatBool (Lost (GetRecords s ! i))),
         Sprintf_2f (ServerProcMs (GetRecords s ! i)),
         Sprintf_2f (NetLatencyMs (GetRecords s ! i)),
         Str (FormatBool (Late (GetRecords s ! i)))]) \<and>
   map (\<lambda>row. take 5 row @ drop 7 row) (saveCSV_extended s) = saveCSV s \<and>
   sint (div_int64 t 1000000) = sint t sdiv 1000000 \<and>
   (0 \<le> sint t \<longrightarrow>
      sint (div_int64 t 1000000) * 1000000 \<le> sint t \<and>
      sint t < (sint (div_int64 t 1000000) + 1) * 1000000)"
proof (intro conjI allI impI)
  show "sint (div_int64 t 1000000) = sint t sdiv 1000000" by (rule sint_div_int64_ms)
next
  assume "0 \<le> sint t"
  then show "sint (div_int64 t 1000000) * 1000000 \<le> sint t"
    and "sint t < (sint (div_int64 t 1000000) + 1) * 1000000"
    by (rule div_int64_ms_floor)+
qed (simp_all add: saveCSV_extended_def saveCSV_def saveCSV_header_def saveCSV_row_def)

theorem saveCSV_extended_columns_witness:
  "saveCSV_extended
     (RecordReceived (RecordSent (NewStats 100 0) 7 3001000000) 7 3004500000 500000) =
     [[Str ''seq'', Str ''sent_time'', Str ''recv_time'', Str ''latency_ms'', Str ''lost'',
       Str ''server_proc_ms'', Str ''net_latency_ms'', Str ''late''],
      [Str ''7'', Str ''3001'', Str ''3004'', Sprintf_2f (7 / 2), Str ''false'',
       Sprintf_2f (1 / 2), Sprintf_2f 3, Str ''false'']] \<and>
   saveCSV (RecordReceived (RecordSent (NewStats 100 0) 7 3001000000) 7 3004500000 500000) =
     [[Str ''seq'', Str ''sent_time'', Str ''recv_time'', Str ''latency_ms'', Str ''lost'',
       Str ''late''],
      [Str ''7'', Str ''3001'', Str ''3004'', Sprintf_2f (7 / 2), Str ''false'', Str ''false'']] \<and>
   sint (div_int64 3004500000 1000000) = 3004 \<and>
   3004 * 1000000 \<le> sint (3004500000 :: int64) \<and>
   sint (3004500000 :: int64) < 3005 * 1000000"
  using saveCSV_extended_columns
    [of "RecordReceived (RecordSent (NewStats 100 0) 7 3001000000) 7 3004500000 500000"
      3004500000]
  by (simp add: saveCSV_extended_def saveCSV_def saveCSV_header_def saveCSV_row_def
      GetRecords_def NewStats_def RecordSent_def RecordReceived_def Let_def
      Millisecond_def FormatUint_def FormatInt_def FormatBool_def div_int64_def decimal.simps
      digit_def signed_divide_int_def)
section \<open>Plot generation proofs\<close>

lemma colIndex_snoc: "colIndex (h @ [c]) = (colIndex h)(TrimSpace c \<mapsto> length h)"
  by (simp add: colIndex_def enumerate_append_eq)

lemma colIndex_sound:
  "colIndex header name = Some j \<Longrightarrow> j < length header \<and> TrimSpace (header ! j) = name"
proof (induction header arbitrary: j rule: rev_induct)
  case Nil
  then show ?case by (simp add: colIndex_def)
next
  case (snoc c h)
  show ?case
  proof (cases "TrimSpace c = name")
    case True
    with snoc.prems have "j = length h" by (simp add: colIndex_snoc)
    with True show ?thesis by simp
  next
    case False
    with snoc.prems have "colIndex h name = Some j" by (simp add: colIndex_snoc)
    then have "j < length h \<and> TrimSpace (h ! j) = name" by (rule snoc.IH)
    then show ?thesis by (simp add: nth_append)
  qed
qed

lemma colIndex_complete:
  assumes "distinct (map TrimSpace header)" "j < length header"
  shows "colIndex header (TrimSpace (header ! j)) = Some j"
  using assms
proof (induction header rule: rev_induct)
  case Nil
  then show ?case by simp
next
  case (snoc c h)
  then have d: "distinct (map TrimSpace h)" and n: "TrimSpace c \<notin> set (map TrimSpace h)"
    by simp_all
  show ?case
  proof (cases "j < length h")
    case True
    then have "TrimSpace (h ! j) \<in> set (map TrimSpace h)" by simp
    with n have "TrimSpace c \<noteq> TrimSpace (h ! j)" by metis
    with snoc.IH [OF d True] True show ?thesis
      by (simp add: colIndex_snoc nth_append)
  next
    case False
    with snoc.prems have "j = length h" by simp
    then show ?thesis by (simp add: colIndex_snoc)
  qed
qed

lemma colIndex_None:
  assumes "colIndex header name = None" "j < length header"
  shows "TrimSpace (header ! j) \<noteq> name"
  using assms
proof (induction header rule: rev_induct)
  case Nil
  then show ?case by simp
next
  case (snoc c h)
  from snoc.prems(1) have c: "TrimSpace c \<noteq> name" and h: "colIndex h name = None"
    by (auto simp: colIndex_snoc split: if_splits)
  show ?case
  proof (cases "j < length h")
    case True
    with snoc.IH [OF h True] show ?thesis by (simp add: nth_append)
  next
    case False
    with snoc.prems have "j = length h" by simp
    with c show ?thesis by simp
  qed
qed

lemma perm_length: "distinct perm \<Longrightarrow> set perm = {..<n} \<Longrightarrow> length perm = n"
  by (metis card_lessThan distinct_card)

lemma length_permute: "length (permute perm row) = length perm"
  by (simp add: permute_def)

lemma permute_nth: "j' < length perm \<Longrightarrow> permute perm row ! j' = row ! (perm ! j')"
  by (simp add: permute_def)

lemma colIndex_None_iff: "colIndex header name = None \<longleftrightarrow> name \<notin> TrimSpace ` set header"
proof
  assume n: "colIndex header name = None"
  show "name \<notin> TrimSpace ` set header"
  proof
    assume "name \<in> TrimSpace ` set header"
    then obtain j where "j < length header" "TrimSpace (header ! j) = name"
      by (auto simp: in_set_conv_nth)
    with colIndex_None [OF n] show False by blast
  qed
next
  assume n: "name \<notin> TrimSpace ` set header"
  show "colIndex header name = None"
  proof (rule ccontr)
    assume "colIndex header name \<noteq> None"
    then obtain j where "colIndex header name = Some j" by blast
    from colIndex_sound [OF this] have "j < length header" "TrimSpace (header ! j) = name"
      by simp_all
    then have "name \<in> TrimSpace ` set header" by (metis imageI nth_mem)
    with n show False by contradiction
  qed
qed

lemma colIndex_Some_last:
  "colIndex header name = Some j \<longleftrightarrow>
     j < length header \<and> TrimSpace (header ! j) = name \<and>
     (\<forall>k<length header. j < k \<longrightarrow> TrimSpace (header ! k) \<noteq> name)"
proof (induction header arbitrary: j rule: rev_induct)
  case Nil
  show ?case by (simp add: colIndex_def)
next
  case (snoc c h)
  show ?case
  proof (cases "TrimSpace c = name")
    case True
    have "(j = length h) =
      (j < Suc (length h) \<and> TrimSpace ((h @ [c]) ! j) = name \<and>
        (\<forall>k<Suc (length h). j < k \<longrightarrow> TrimSpace ((h @ [c]) ! k) \<noteq> name))"
    proof
      assume "j = length h"
      with True show "j < Suc (length h) \<and> TrimSpace ((h @ [c]) ! j) = name \<and>
        (\<forall>k<Suc (length h). j < k \<longrightarrow> TrimSpace ((h @ [c]) ! k) \<noteq> name)"
        by simp
    next
      assume a: "j < Suc (length h) \<and> TrimSpace ((h @ [c]) ! j) = name \<and>
        (\<forall>k<Suc (length h). j < k \<longrightarrow> TrimSpace ((h @ [c]) ! k) \<noteq> name)"
      show "j = length h"
      proof (rule ccontr)
        assume "j \<noteq> length h"
        with a have "j < length h" by simp
        moreover from a have "length h < Suc (length h) \<longrightarrow> j < length h \<longrightarrow>
          TrimSpace ((h @ [c]) ! length h) \<noteq> name" by blast
        ultimately have "TrimSpace ((h @ [c]) ! length h) \<noteq> name" by simp
        with True show False by simp
      qed
    qed
    moreover from True have "(colIndex (h @ [c]) name = Some j) = (j = length h)"
      by (auto simp: colIndex_snoc)
    ultimately show ?thesis by simp
  next
    case False
    have "(j < length h \<and> TrimSpace (h ! j) = name \<and>
        (\<forall>k<length h. j < k \<longrightarrow> TrimSpace (h ! k) \<noteq> name)) =
      (j < Suc (length h) \<and> TrimSpace ((h @ [c]) ! j) = name \<and>
        (\<forall>k<Suc (length h). j < k \<longrightarrow> TrimSpace ((h @ [c]) ! k) \<noteq> name))"
      using False by (auto simp: nth_append less_Suc_eq)
    with False snoc.IH [of j] show ?thesis by (simp add: colIndex_snoc)
  qed
qed

lemma colIndex_cong:
  assumes "length h' = length h"
    and "\<forall>j<length h. (TrimSpace (h' ! j) = name) = (TrimSpace (h ! j) = name)"
  shows "colIndex h' name = colIndex h name"
proof (cases "colIndex h name")
  case None
  then have "\<forall>j<length h. TrimSpace (h ! j) \<noteq> name"
    using colIndex_None by blast
  with assms have "\<forall>j<length h'. TrimSpace (h' ! j) \<noteq> name" by simp
  then have "name \<notin> TrimSpace ` set h'" by (auto simp: in_set_conv_nth)
  then have "colIndex h' name = None" by (simp add: colIndex_None_iff)
  with None show ?thesis by simp
next
  case (Some j)
  then have "j < length h \<and> TrimSpace (h ! j) = name \<and>
     (\<forall>k<length h. j < k \<longrightarrow> TrimSpace (h ! k) \<noteq> name)"
    by (simp add: colIndex_Some_last)
  with assms have "j < length h' \<and> TrimSpace (h' ! j) = name \<and>
     (\<forall>k<length h'. j < k \<longrightarrow> TrimSpace (h' ! k) \<noteq> name)"
    by simp
  then have "colIndex h' name = Some j" by (simp add: colIndex_Some_last)
  with Some show ?thesis by simp
qed


lemma colIndex_permute:
  assumes "distinct perm" "set perm = {..<length header}"
    and u: "\<And>j k. j < length header \<Longrightarrow> k < length header \<Longrightarrow>
              TrimSpace (header ! j) = name \<Longrightarrow> TrimSpace (header ! k) = name \<Longrightarrow> j = k"
  shows "rel_option (same_column perm) (colIndex (permute perm header) name)
           (colIndex header name)"
proof (cases "colIndex header name")
  case None
  have "colIndex (permute perm header) name = None"
  proof (rule ccontr)
    assume "colIndex (permute perm header) name \<noteq> None"
    then obtain j' where "colIndex (permute perm header) name = Some j'" by blast
    from colIndex_sound [OF this]
    have j': "j' < length perm" and t: "TrimSpace (permute perm header ! j') = name"
      by (simp_all only: length_permute)
    from j' have "perm ! j' \<in> set perm" by (rule nth_mem)
    with assms(2) have "perm ! j' < length header" by simp
    from colIndex_None [OF None this] have "TrimSpace (header ! (perm ! j')) \<noteq> name" .
    moreover from t j' have "TrimSpace (header ! (perm ! j')) = name"
      by (simp only: permute_nth)
    ultimately show False by contradiction
  qed
  with None show ?thesis by simp
next
  case (Some j)
  from colIndex_sound [OF Some] have j: "j < length header" and t: "TrimSpace (header ! j) = name"
    by simp_all
  from j assms(2) have "j \<in> set perm" by simp
  then obtain j' where j': "j' < length perm" "perm ! j' = j"
    unfolding in_set_conv_nth by blast
  have l: "j' < length (permute perm header)" using j'(1) by (simp only: length_permute)
  have e: "permute perm header ! j' = header ! j"
    using j' by (simp only: permute_nth)
  have "\<forall>k<length (permute perm header). j' < k \<longrightarrow>
          TrimSpace (permute perm header ! k) \<noteq> name"
  proof (intro allI impI notI)
    fix k assume k: "k < length (permute perm header)" and jk: "j' < k"
      and tk: "TrimSpace (permute perm header ! k) = name"
    from k have kp: "k < length perm" by (simp only: length_permute)
    then have "perm ! k \<in> set perm" by (rule nth_mem)
    with assms(2) have kh: "perm ! k < length header" by simp
    from tk kp have "TrimSpace (header ! (perm ! k)) = name" by (simp only: permute_nth)
    with kh j t have "perm ! k = j" by (intro u)
    with j'(2) have "perm ! k = perm ! j'" by simp
    with assms(1) kp j'(1) have "k = j'" by (simp only: nth_eq_iff_index_eq)
    with jk show False by simp
  qed
  with l e t have "colIndex (permute perm header) name = Some j'"
    by (simp add: colIndex_Some_last)
  with Some j' show ?thesis by (simp add: same_column_def)
qed

lemma distinct_filter_nth:
  "distinct (filter P xs) \<Longrightarrow> j < length xs \<Longrightarrow> k < length xs \<Longrightarrow> xs ! j = xs ! k \<Longrightarrow>
   P (xs ! j) \<Longrightarrow> j = k"
proof (induction xs arbitrary: j k)
  case Nil
  then show ?case by simp
next
  case (Cons x xs)
  show ?case
  proof (cases j)
    case 0
    note j0 = this
    show ?thesis
    proof (cases k)
      case 0
      with j0 show ?thesis by simp
    next
      case (Suc k')
      with j0 Cons.prems have "P x" "x \<in> set xs" by auto
      with Cons.prems(1) show ?thesis by simp
    qed
  next
    case (Suc j')
    note js = this
    show ?thesis
    proof (cases k)
      case 0
      with js Cons.prems have "P x" "x \<in> set xs" by auto
      with Cons.prems(1) show ?thesis by simp
    next
      case (Suc k')
      from Cons.prems(1) have "distinct (filter P xs)" by (simp split: if_splits)
      with js Suc Cons.prems Cons.IH [of j' k'] show ?thesis by simp
    qed
  qed
qed

lemma read_name_unique:
  assumes "distinct (filter (\<lambda>n. n \<in> set read_names) (map TrimSpace header))"
    "name \<in> set read_names" "j < length header" "k < length header"
    "TrimSpace (header ! j) = name" "TrimSpace (header ! k) = name"
  shows "j = k"
  using distinct_filter_nth [OF assms(1), of j k] assms(2-6) by simp

lemma lookup_columns_permute:
  assumes "distinct perm" "set perm = {..<length header}"
    "distinct (filter (\<lambda>n. n \<in> set read_names) (map TrimSpace header))"
  shows "case lookup_columns header of
           Inl e \<Rightarrow> lookup_columns (permute perm header) = Inl e
         | Inr ix \<Rightarrow> (\<exists>ix'. lookup_columns (permute perm header) = Inr ix' \<and>
                       same_columns perm ix' ix)"
proof -
  have r: "rel_option (same_column perm) (colIndex (permute perm header) name)
           (colIndex header name)" if "name \<in> set read_names" for name
    using assms(1,2) read_name_unique [OF assms(3) that] by (rule colIndex_permute)
  have m: "''seq'' \<in> set read_names" "''recv_time'' \<in> set read_names"
    "''latency_ms'' \<in> set read_names" "''lost'' \<in> set read_names"
    "''net_latency_ms'' \<in> set read_names" "''server_proc_ms'' \<in> set read_names"
    by (simp_all add: read_names_def required_names_def)
  show ?thesis
    unfolding lookup_columns_def
    using r [OF m(1)] r [OF m(2)] r [OF m(3)] r [OF m(4)] r [OF m(5)] r [OF m(6)]
    by (auto split: option.splits simp: same_columns_def option_rel_Some1 option_rel_Some2)
qed

lemma lookup_columns_by_name:
  assumes "lookup_columns header = Inr ix"
  shows "seqIdx ix < length header \<and> TrimSpace (header ! seqIdx ix) = ''seq'' \<and>
         recvIdx ix < length header \<and> TrimSpace (header ! recvIdx ix) = ''recv_time'' \<and>
         latIdx ix < length header \<and> TrimSpace (header ! latIdx ix) = ''latency_ms'' \<and>
         lostIdx ix < length header \<and> TrimSpace (header ! lostIdx ix) = ''lost'' \<and>
         (\<forall>j. netIdx ix = Some j \<longrightarrow>
            j < length header \<and> TrimSpace (header ! j) = ''net_latency_ms'') \<and>
         (\<forall>j. serverIdx ix = Some j \<longrightarrow>
            j < length header \<and> TrimSpace (header ! j) = ''server_proc_ms'')"
proof -
  from assms obtain a b c d where
    a: "colIndex header ''seq'' = Some a" and b: "colIndex header ''recv_time'' = Some b"
    and c: "colIndex header ''latency_ms'' = Some c" and d: "colIndex header ''lost'' = Some d"
    and ix: "ix = \<lparr>seqIdx = a, recvIdx = b, latIdx = c, lostIdx = d,
                   netIdx = colIndex header ''net_latency_ms'',
                   serverIdx = colIndex header ''server_proc_ms''\<rparr>"
    by (auto simp: lookup_columns_def split: option.splits)
  from colIndex_sound [OF a] colIndex_sound [OF b] colIndex_sound [OF c] colIndex_sound [OF d]
    colIndex_sound [of header "''net_latency_ms''"] colIndex_sound [of header "''server_proc_ms''"]
  show ?thesis by (simp add: ix)
qed

lemma lookup_columns_Inr_iff:
  "(\<exists>ix. lookup_columns header = Inr ix) \<longleftrightarrow>
     set required_names \<subseteq> TrimSpace ` set header"
proof -
  have n: "(colIndex header name = None) = (name \<notin> TrimSpace ` set header)" for name
    by (rule colIndex_None_iff)
  show ?thesis
    unfolding lookup_columns_def required_names_def
    using n [of "''seq''"] n [of "''recv_time''"] n [of "''latency_ms''"] n [of "''lost''"]
    by (auto split: option.splits)
qed

lemma lookup_columns_Inl:
  assumes "lookup_columns header = Inl e"
  shows "\<exists>name\<in>set required_names. e = MissingColumn name \<and> name \<notin> TrimSpace ` set header"
proof -
  have n: "(colIndex header name = None) = (name \<notin> TrimSpace ` set header)" for name
    by (rule colIndex_None_iff)
  show ?thesis
    using assms n [of "''seq''"] n [of "''recv_time''"] n [of "''latency_ms''"] n [of "''lost''"]
    unfolding lookup_columns_def required_names_def
    by (auto split: option.splits)
qed

lemma lookup_columns_cong:
  assumes "\<forall>name\<in>set read_names. colIndex h' name = colIndex h name"
  shows "lookup_columns h' = lookup_columns h"
proof -
  from assms have "colIndex h' ''seq'' = colIndex h ''seq''"
    "colIndex h' ''recv_time'' = colIndex h ''recv_time''"
    "colIndex h' ''latency_ms'' = colIndex h ''latency_ms''"
    "colIndex h' ''lost'' = colIndex h ''lost''"
    "colIndex h' ''net_latency_ms'' = colIndex h ''net_latency_ms''"
    "colIndex h' ''server_proc_ms'' = colIndex h ''server_proc_ms''"
    by (simp_all add: read_names_def required_names_def)
  then show ?thesis by (simp only: lookup_columns_def)
qed

lemma same_column_nth:
  assumes "same_column perm j' j" "length row = length perm" "set perm \<subseteq> {..<length row}"
  shows "j' < length (permute perm row)" "j < length row" "permute perm row ! j' = row ! j"
proof -
  from assms(1) have j': "j' < length perm" and e: "perm ! j' = j"
    by (simp_all add: same_column_def)
  from j' show "j' < length (permute perm row)" by (simp only: length_permute)
  from j' have "perm ! j' \<in> set perm" by (rule nth_mem)
  with assms(3) e show "j < length row" by auto
  from j' e show "permute perm row ! j' = row ! j" by (simp only: permute_nth)
qed

lemma optional_cell_permute:
  assumes "rel_option (same_column perm) oj' oj" "length row = length perm"
    "set perm \<subseteq> {..<length row}"
  shows "optional_cell P oj' (permute perm row) = optional_cell P oj row"
proof (cases oj)
  case None
  with assms(1) show ?thesis by (simp add: optional_cell_def)
next
  case (Some j)
  with assms(1) obtain j' where o: "oj' = Some j'" and s: "same_column perm j' j"
    by (auto simp: option_rel_Some2)
  from same_column_nth [OF s assms(2,3)] show ?thesis
    by (simp add: o Some optional_cell_def)
qed

lemma plot_row_permute:
  assumes "same_columns perm ix' ix" "length row = length perm" "set perm \<subseteq> {..<length row}"
  shows "plot_row ops P ix' acc (i, permute perm row) = plot_row ops P ix acc (i, row)"
proof -
  from assms(1) have c: "same_column perm (seqIdx ix') (seqIdx ix)"
    "same_column perm (recvIdx ix') (recvIdx ix)"
    "same_column perm (latIdx ix') (latIdx ix)"
    "same_column perm (lostIdx ix') (lostIdx ix)"
    and o: "rel_option (same_column perm) (netIdx ix') (netIdx ix)"
    "rel_option (same_column perm) (serverIdx ix') (serverIdx ix)"
    by (simp_all add: same_columns_def)
  note a = same_column_nth [OF c(1) assms(2,3)]
  note b = same_column_nth [OF c(2) assms(2,3)]
  note l = same_column_nth [OF c(3) assms(2,3)]
  note d = same_column_nth [OF c(4) assms(2,3)]
  note n = optional_cell_permute [OF o(1) assms(2,3), of P]
  note s = optional_cell_permute [OF o(2) assms(2,3), of P]
  have g: "\<not> (length (permute perm row) \<le> seqIdx ix' \<or> length (permute perm row) \<le> recvIdx ix'
      \<or> length (permute perm row) \<le> latIdx ix' \<or> length (permute perm row) \<le> lostIdx ix')"
    "\<not> (length row \<le> seqIdx ix \<or> length row \<le> recvIdx ix
      \<or> length row \<le> latIdx ix \<or> length row \<le> lostIdx ix)"
    using a(1,2) b(1,2) l(1,2) d(1,2) by simp_all
  show ?thesis
    unfolding plot_row_def Let_def fst_conv snd_conv n s a(3) b(3) l(3) d(3)
    using g by (simp only: if_False)
qed

lemma foldl_plot_row_permute:
  assumes "same_columns perm ix' ix" "\<forall>row\<in>set rows. length row = length perm"
    "set perm = {..<length perm}"
  shows "foldl (plot_row ops P ix') acc (enumerate k (map (permute perm) rows)) =
         foldl (plot_row ops P ix) acc (enumerate k rows)"
  using assms(2)
proof (induction rows arbitrary: acc k)
  case Nil
  show ?case by simp
next
  case (Cons row rows)
  then have l: "length row = length perm" and r: "\<forall>row\<in>set rows. length row = length perm"
    by simp_all
  from l assms(3) have s: "set perm \<subseteq> {..<length row}" by simp
  have "plot_row ops P ix' acc (k, permute perm row) = plot_row ops P ix acc (k, row)"
    using assms(1) l s by (rule plot_row_permute)
  with Cons.IH [OF r] show ?case by simp
qed

lemma plot_report_permute:
  assumes "same_columns perm ix' ix"
  shows "plot_report ops ix' acc = plot_report ops ix acc"
proof -
  from assms have "rel_option (same_column perm) (netIdx ix') (netIdx ix)"
    "rel_option (same_column perm) (serverIdx ix') (serverIdx ix)"
    by (simp_all add: same_columns_def)
  then have "(netIdx ix' \<noteq> None) = (netIdx ix \<noteq> None)"
    "(serverIdx ix' \<noteq> None) = (serverIdx ix \<noteq> None)"
    by (auto elim: option.rel_cases)
  then show ?thesis by (simp add: plot_report_def)
qed

lemma GeneratePlot_permute:
  assumes "distinct perm" "set perm = {..<length header}"
    "distinct (filter (\<lambda>n. n \<in> set read_names) (map TrimSpace header))"
    "\<forall>row\<in>set rows. length row = length header"
  shows "GeneratePlot ops P (permute perm header # map (permute perm) rows) =
         GeneratePlot ops P (header # rows)"
proof -
  have n: "length perm = length header" using assms(1,2) by (rule perm_length)
  from assms(4) n have rows: "\<forall>row\<in>set rows. length row = length perm" by simp
  from assms(2) n have p: "set perm = {..<length perm}" by simp
  show ?thesis
  proof (cases "lookup_columns header")
    case (Inl e)
    with lookup_columns_permute [OF assms(1-3)]
    have "lookup_columns (permute perm header) = Inl e" by simp
    with Inl show ?thesis by (simp add: GeneratePlot_def)
  next
    case (Inr ix)
    with lookup_columns_permute [OF assms(1-3)]
    obtain ix' where l: "lookup_columns (permute perm header) = Inr ix'"
      and s: "same_columns perm ix' ix" by auto
    have "plot_report ops ix'
            (foldl (plot_row ops P ix') (plot_acc0 ops) (enumerate 0 (map (permute perm) rows)))
        = plot_report ops ix (foldl (plot_row ops P ix) (plot_acc0 ops) (enumerate 0 rows))"
      by (simp only: foldl_plot_row_permute [OF s rows p] plot_report_permute [OF s])
    with Inr l show ?thesis by (simp add: GeneratePlot_def)
  qed
qed

lemma optional_cell_agree:
  assumes "length r' = length r" "\<forall>j\<in>set_option oj. j < length r \<longrightarrow> r' ! j = r ! j"
  shows "optional_cell P oj r' = optional_cell P oj r"
  using assms by (cases oj) (simp_all add: optional_cell_def)

lemma plot_row_agree:
  assumes "length r' = length r" "\<forall>j\<in>read_indices ix. j < length r \<longrightarrow> r' ! j = r ! j"
  shows "plot_row ops P ix acc (i, r') = plot_row ops P ix acc (i, r)"
proof (cases "seqIdx ix \<ge> length r \<or> recvIdx ix \<ge> length r \<or> latIdx ix \<ge> length r
            \<or> lostIdx ix \<ge> length r")
  case True
  with assms(1) show ?thesis by (simp add: plot_row_def)
next
  case False
  with assms(2) have e: "r' ! seqIdx ix = r ! seqIdx ix" "r' ! recvIdx ix = r ! recvIdx ix"
    "r' ! latIdx ix = r ! latIdx ix" "r' ! lostIdx ix = r ! lostIdx ix"
    by (simp_all add: read_indices_def)
  from assms(2) have "\<forall>j\<in>set_option (netIdx ix). j < length r \<longrightarrow> r' ! j = r ! j"
    "\<forall>j\<in>set_option (serverIdx ix). j < length r \<longrightarrow> r' ! j = r ! j"
    by (simp_all add: read_indices_def)
  with assms(1) have o: "optional_cell P (netIdx ix) r' = optional_cell P (netIdx ix) r"
    "optional_cell P (serverIdx ix) r' = optional_cell P (serverIdx ix) r"
    by (blast intro: optional_cell_agree)+
  show ?thesis
    unfolding plot_row_def Let_def fst_conv snd_conv e o assms(1) ..
qed

lemma foldl_plot_row_agree:
  assumes "list_all2 (\<lambda>r' r. length r' = length r \<and>
             (\<forall>j\<in>read_indices ix. j < length r \<longrightarrow> r' ! j = r ! j)) rows' rows"
  shows "foldl (plot_row ops P ix) acc (enumerate k rows') =
         foldl (plot_row ops P ix) acc (enumerate k rows)"
  using assms
proof (induction rows' rows arbitrary: acc k rule: list_all2_induct)
  case Nil
  show ?case by simp
next
  case (Cons r' rows' r rows)
  from Cons.hyps(1) have "plot_row ops P ix acc (k, r') = plot_row ops P ix acc (k, r)"
    by (intro plot_row_agree) simp_all
  with Cons.IH show ?case by simp
qed

lemma read_indices_by_name:
  assumes "lookup_columns header = Inr ix" "j \<in> read_indices ix"
  shows "j < length header \<and> TrimSpace (header ! j) \<in> set read_names"
  using lookup_columns_by_name [OF assms(1)] assms(2)
  by (auto simp: read_indices_def read_names_def required_names_def)

lemma GeneratePlot_agree:
  assumes "length header' = length header" "length rows' = length rows"
    and h: "\<forall>j<length header.
              TrimSpace (header ! j) \<in> set read_names \<or> TrimSpace (header' ! j) \<in> set read_names
              \<longrightarrow> TrimSpace (header' ! j) = TrimSpace (header ! j)"
    and r: "\<forall>i<length rows. length (rows' ! i) = length (rows ! i) \<and>
              (\<forall>j<length header. TrimSpace (header ! j) \<in> set read_names \<longrightarrow>
                 j < length (rows ! i) \<longrightarrow> rows' ! i ! j = rows ! i ! j)"
  shows "GeneratePlot ops P (header' # rows') = GeneratePlot ops P (header # rows)"
proof -
  have c: "colIndex header' name = colIndex header name" if "name \<in> set read_names" for name
  proof (rule colIndex_cong [OF assms(1)], intro allI impI)
    fix j assume "j < length header"
    with h have imp: "TrimSpace (header ! j) \<in> set read_names \<or>
        TrimSpace (header' ! j) \<in> set read_names
        \<longrightarrow> TrimSpace (header' ! j) = TrimSpace (header ! j)" by blast
    show "(TrimSpace (header' ! j) = name) = (TrimSpace (header ! j) = name)"
    proof
      assume a: "TrimSpace (header' ! j) = name"
      with that have "TrimSpace (header' ! j) \<in> set read_names" by (simp only:)
      with imp have e: "TrimSpace (header' ! j) = TrimSpace (header ! j)" by blast
      from e [symmetric] a show "TrimSpace (header ! j) = name" by (rule trans)
    next
      assume a: "TrimSpace (header ! j) = name"
      with that have "TrimSpace (header ! j) \<in> set read_names" by (simp only:)
      with imp have e: "TrimSpace (header' ! j) = TrimSpace (header ! j)" by blast
      from e a show "TrimSpace (header' ! j) = name" by (rule trans)
    qed
  qed
  have l: "lookup_columns header' = lookup_columns header"
  proof (rule lookup_columns_cong, rule ballI)
    fix name assume "name \<in> set read_names"
    then show "colIndex header' name = colIndex header name" by (rule c)
  qed
  have n: "(length (header' # rows') < 2) = (length (header # rows) < 2)"
    using assms(2) by simp
  show ?thesis
  proof (cases "lookup_columns header")
    case (Inl e)
    show ?thesis
      unfolding GeneratePlot_def n list.sel l Inl sum.case ..
  next
    case (Inr ix)
    have "list_all2 (\<lambda>r' r. length r' = length r \<and>
             (\<forall>j\<in>read_indices ix. j < length r \<longrightarrow> r' ! j = r ! j)) rows' rows"
      unfolding list_all2_conv_all_nth
    proof (intro conjI allI impI ballI)
      show "length rows' = length rows" by (rule assms(2))
    next
      fix i assume "i < length rows'"
      with assms(2) have "i < length rows" by simp
      with r show "length (rows' ! i) = length (rows ! i)" by blast
    next
      fix i j assume "i < length rows'" and j: "j \<in> read_indices ix"
        and jl: "j < length (rows ! i)"
      with assms(2) have i: "i < length rows" by simp
      from read_indices_by_name [OF Inr j]
      have "j < length header" "TrimSpace (header ! j) \<in> set read_names" by simp_all
      with i r jl show "rows' ! i ! j = rows ! i ! j" by blast
    qed
    then have f: "foldl (plot_row ops P ix) (plot_acc0 ops) (enumerate 0 rows') =
               foldl (plot_row ops P ix) (plot_acc0 ops) (enumerate 0 rows)"
      by (rule foldl_plot_row_agree)
    show ?thesis
      unfolding GeneratePlot_def n list.sel l Inr sum.case f ..
  qed
qed

lemma GeneratePlot_Inr_iff:
  "(\<exists>rep. GeneratePlot ops P (header # rows) = Inr rep) \<longleftrightarrow>
     rows \<noteq> [] \<and> set required_names \<subseteq> TrimSpace ` set header"
proof (cases "rows = []")
  case True
  then show ?thesis by (simp add: GeneratePlot_def)
next
  case False
  then have n: "\<not> length (header # rows) < 2" by (cases rows) simp_all
  have "(\<exists>rep. GeneratePlot ops P (header # rows) = Inr rep) =
        (\<exists>ix. lookup_columns header = Inr ix)"
    using n by (cases "lookup_columns header") (simp_all add: GeneratePlot_def)
  with False show ?thesis by (simp only: lookup_columns_Inr_iff simp_thms)
qed

lemma GeneratePlot_Inl:
  assumes "GeneratePlot ops P (header # rows) = Inl e"
  shows "rows = [] \<and> e = NoDataRows \<or>
         rows \<noteq> [] \<and> (\<exists>name\<in>set required_names.
            e = MissingColumn name \<and> name \<notin> TrimSpace ` set header)"
proof (cases "rows = []")
  case True
  with assms show ?thesis by (simp add: GeneratePlot_def)
next
  case False
  then have n: "\<not> length (header # rows) < 2" by (cases rows) simp_all
  with assms have "lookup_columns header = Inl e"
    by (cases "lookup_columns header") (simp_all add: GeneratePlot_def)
  from lookup_columns_Inl [OF this] False show ?thesis by simp
qed

lemmas trim_eval = TrimSpace_def TrimLeft.simps TrimRight.simps leading_space_def
  trailing_space_def white_space_def

lemma trim_names:
  "TrimSpace ''seq'' = ''seq''"
  "TrimSpace ''sent_time'' = ''sent_time''"
  "TrimSpace ''recv_time'' = ''recv_time''"
  "TrimSpace ''latency_ms'' = ''latency_ms''"
  "TrimSpace ''lost'' = ''lost''"
  "TrimSpace ''net_latency_ms'' = ''net_latency_ms''"
  "TrimSpace (CHR 0xC2 # CHR 0xA0 # ''recv_time '') = ''recv_time''"
  "TrimSpace ''extra'' = ''extra''"
  "TrimSpace ''server_proc_ms'' = ''server_proc_ms''"
  by (simp_all add: trim_eval)

text \<open>
  The two earlier versions of \<open>GeneratePlot\<close> read their columns by position: the same CSV
  with the columns latency_ms and lost exchanged gives a different report.
\<close>

theorem GeneratePlot_positional_counterexample:
  "GeneratePlot_v1 real_ops (case_option (0, False) id \<circ> map_of [(''3.00'', (3, True))])
     [[''seq'', ''sent_time'', ''recv_time'', ''latency_ms'', ''lost''],
      [''1'', ''0'', ''3'', ''3.00'', ''false'']] =
     Inr \<lparr>TOTAL_PACKETS_p = 1, LOSS_PERCENT_p = 0, AVG_LATENCY_p = 3, MAX_LATENCY_p = 3,
          DATA_JSON_p = [EntrySeq ''1'' 3 False]\<rparr> \<and>
   GeneratePlot_v1 real_ops (case_option (0, False) id \<circ> map_of [(''3.00'', (3, True))])
     (map (permute [0, 1, 2, 4, 3])
        [[''seq'', ''sent_time'', ''recv_time'', ''latency_ms'', ''lost''],
         [''1'', ''0'', ''3'', ''3.00'', ''false'']]) =
     Inr \<lparr>TOTAL_PACKETS_p = 1, LOSS_PERCENT_p = 0, AVG_LATENCY_p = 0, MAX_LATENCY_p = 0,
          DATA_JSON_p = [EntrySeq ''1'' 0 False]\<rparr> \<and>
   GeneratePlot_v2 real_ops (case_option (0, False) id \<circ> map_of [(''3.00'', (3, True))])
     [[''seq'', ''sent_time'', ''recv_time'', ''latency_ms'', ''lost''],
      [''1'', ''0'', ''3'', ''3.00'', ''false'']] =
     Inr \<lparr>TOTAL_PACKETS_p = 1, LOSS_PERCENT_p = 0, AVG_LATENCY_p = 3, MAX_LATENCY_p = 3,
          DATA_JSON_p = [EntryRecv ''1'' ''3'' 3 False]\<rparr> \<and>
   GeneratePlot_v2 real_ops (case_option (0, False) id \<circ> map_of [(''3.00'', (3, True))])
     (map (permute [0, 1, 2, 4, 3])
        [[''seq'', ''sent_time'', ''recv_time'', ''latency_ms'', ''lost''],
         [''1'', ''0'', ''3'', ''3.00'', ''false'']]) =
     Inr \<lparr>TOTAL_PACKETS_p = 1, LOSS_PERCENT_p = 0, AVG_LATENCY_p = 0, MAX_LATENCY_p = 0,
          DATA_JSON_p = [EntryRecv ''1'' ''3'' 0 False]\<rparr>"
  by (simp add: GeneratePlot_v1_def GeneratePlot_v2_def plot_row_v1_def plot_row_v2_def
      plot_report_positional_def plot_acc0_def real_ops_def permute_def Let_def)


text \<open>
  Claim C6, as amended.  The \<open>GeneratePlot\<close> of plot.go is a function of the rows of the
  CSV and finds the columns it reads by their header name, trimmed of white space: seq,
  recv_time, latency_ms and lost are required (it succeeds exactly when there is a data row
  and the header has these four names, and otherwise reports the missing data or a missing
  required name), net_latency_ms and server_proc_ms are optional, and no other column, such as
  sent_time, is read: two CSVs of the same shape that agree on where these six names stand
  and on the cells below them give the same result.  When none of the six names occurs twice
  in the header and the rows are as long as the header, every reordering of the columns gives
  the same result.  This holds for every float64 arithmetic and every \<open>strconv.ParseFloat\<close>.
\<close>

theorem GeneratePlot_by_header_name:
  "(distinct perm \<and> set perm = {..<length header} \<and>
    distinct (filter (\<lambda>n. n \<in> set read_names) (map TrimSpace header)) \<and>
    (\<forall>row\<in>set rows. length row = length header) \<longrightarrow>
      GeneratePlot ops ParseFloat (permute perm header # map (permute perm) rows) =
      GeneratePlot ops ParseFloat (header # rows)) \<and>
   (\<forall>ix. lookup_columns header = Inr ix \<longrightarrow>
      seqIdx ix < length header \<and> TrimSpace (header ! seqIdx ix) = ''seq'' \<and>
      recvIdx ix < length header \<and> TrimSpace (header ! recvIdx ix) = ''recv_time'' \<and>
      latIdx ix < length header \<and> TrimSpace (header ! latIdx ix) = ''latency_ms'' \<and>
      lostIdx ix < length header \<and> TrimSpace (header ! lostIdx ix) = ''lost'' \<and>
      (\<forall>j. netIdx ix = Some j \<longrightarrow>
         j < length header \<and> TrimSpace (header ! j) = ''net_latency_ms'') \<and>
      (\<forall>j. serverIdx ix = Some j \<longrightarrow>
         j < length header \<and> TrimSpace (header ! j) = ''server_proc_ms'')) \<and>
   ((\<exists>rep. GeneratePlot ops ParseFloat (header # rows) = Inr rep) \<longleftrightarrow>
      rows \<noteq> [] \<and> set required_names \<subseteq> TrimSpace ` set header) \<and>
   (\<forall>e. GeneratePlot ops ParseFloat (header # rows) = Inl e \<longrightarrow>
      rows = [] \<and> e = NoDataRows \<or>
      rows \<noteq> [] \<and> (\<exists>name\<in>set required_names.
         e = MissingColumn name \<and> name \<notin> TrimSpace ` set header)) \<and>
   (length header' = length header \<and> length rows' = length rows \<and>
    (\<forall>j<length header.
       TrimSpace (header ! j) \<in> set read_names \<or> TrimSpace (header' ! j) \<in> set read_names
       \<longrightarrow> TrimSpace (header' ! j) = TrimSpace (header ! j)) \<and>
    (\<forall>i<length rows. length (rows' ! i) = length (rows ! i) \<and>
       (\<forall>j<length header. TrimSpace (header ! j) \<in> set read_names \<longrightarrow>
          j < length (rows ! i) \<longrightarrow> rows' ! i ! j = rows ! i ! j)) \<longrightarrow>
      GeneratePlot ops ParseFloat (header' # rows') =
      GeneratePlot ops ParseFloat (header # rows))"
proof (intro conjI impI allI)
  assume "distinct perm \<and> set perm = {..<length header} \<and>
    distinct (filter (\<lambda>n. n \<in> set read_names) (map TrimSpace header)) \<and>
    (\<forall>row\<in>set rows. length row = length header)"
  then show "GeneratePlot ops ParseFloat (permute perm header # map (permute perm) rows) =
      GeneratePlot ops ParseFloat (header # rows)"
    by (intro GeneratePlot_permute) simp_all
next
  fix ix assume "lookup_columns header = Inr ix"
  from lookup_columns_by_name [OF this]
  show "seqIdx ix < length header" "TrimSpace (header ! seqIdx ix) = ''seq''"
    "recvIdx ix < length header" "TrimSpace (header ! recvIdx ix) = ''recv_time''"
    "latIdx ix < length header" "TrimSpace (header ! latIdx ix) = ''latency_ms''"
    "lostIdx ix < length header" "TrimSpace (header ! lostIdx ix) = ''lost''"
    by simp_all
next
  fix ix j assume "lookup_columns header = Inr ix" "netIdx ix = Some j"
  with lookup_columns_by_name [of header ix]
  show "j < length header" "TrimSpace (header ! j) = ''net_latency_ms''" by simp_all
next
  fix ix j assume "lookup_columns header = Inr ix" "serverIdx ix = Some j"
  with lookup_columns_by_name [of header ix]
  show "j < length header" "TrimSpace (header ! j) = ''server_proc_ms''" by simp_all
next
  show "(\<exists>rep. GeneratePlot ops ParseFloat (header # rows) = Inr rep) \<longleftrightarrow>
      rows \<noteq> [] \<and> set required_names \<subseteq> TrimSpace ` set header"
    by (rule GeneratePlot_Inr_iff)
next
  fix e assume "GeneratePlot ops ParseFloat (header # rows) = Inl e"
  then show "rows = [] \<and> e = NoDataRows \<or>
      rows \<noteq> [] \<and> (\<exists>name\<in>set required_names.
         e = MissingColumn name \<and> name \<notin> TrimSpace ` set header)"
    by (rule GeneratePlot_Inl)
next
  assume a: "length header' = length header \<and> length rows' = length rows \<and>
    (\<forall>j<length header.
       TrimSpace (header ! j) \<in> set read_names \<or> TrimSpace (header' ! j) \<in> set read_names
       \<longrightarrow> TrimSpace (header' ! j) = TrimSpace (header ! j)) \<and>
    (\<forall>i<length rows. length (rows' ! i) = length (rows ! i) \<and>
       (\<forall>j<length header. TrimSpace (header ! j) \<in> set read_names \<longrightarrow>
          j < length (rows ! i) \<longrightarrow> rows' ! i ! j = rows ! i ! j))"
  show "GeneratePlot ops ParseFloat (header' # rows') =
      GeneratePlot ops ParseFloat (header # rows)"
    by (rule GeneratePlot_agree) (use a in blast)+
qed

theorem GeneratePlot_by_header_name_witness:
  "GeneratePlot real_ops
     (case_option (0, False) id \<circ>
        map_of [(''3.00'', (3, True)), (''2.50'', (5 / 2, True)), (''0.50'', (1 / 2, True)),
                (''0.00'', (0, True))])
     ([''seq'', ''sent_time'', ''recv_time'', ''latency_ms'', ''lost'', ''server_proc_ms'',
       ''net_latency_ms''] #
       [[''1'', ''0'', ''3'', ''3.00'', ''false'', ''0.50'', ''2.50''],
        [''2'', ''5'', ''0'', ''0.00'', ''true'', ''0.00'', ''0.00'']]) =
     Inr \<lparr>TOTAL_PACKETS = 2, LOSS_PERCENT = 50, AVG_LATENCY = 3, MAX_LATENCY = 3,
          AVG_NET_LATENCY = Some (5 / 2), AVG_SERVER_PROC = Some (1 / 2),
          DATA_JSON = [Entry ''1'' ''3'' 3 (Some (5 / 2)) (Some (1 / 2)) False, Comma,
                       Entry ''2'' ''0'' 0 (Some 0) (Some 0) True]\<rparr> \<and>
   GeneratePlot real_ops
     (case_option (0, False) id \<circ>
        map_of [(''3.00'', (3, True)), (''2.50'', (5 / 2, True)), (''0.50'', (1 / 2, True)),
                (''0.00'', (0, True))])
     (permute [6, 5, 4, 3, 2, 1, 0]
        [''seq'', ''sent_time'', ''recv_time'', ''latency_ms'', ''lost'', ''server_proc_ms'',
       ''net_latency_ms''] #
      map (permute [6, 5, 4, 3, 2, 1, 0])
       [[''1'', ''0'', ''3'', ''3.00'', ''false'', ''0.50'', ''2.50''],
        [''2'', ''5'', ''0'', ''0.00'', ''true'', ''0.00'', ''0.00'']]) =
     Inr \<lparr>TOTAL_PACKETS = 2, LOSS_PERCENT = 50, AVG_LATENCY = 3, MAX_LATENCY = 3,
          AVG_NET_LATENCY = Some (5 / 2), AVG_SERVER_PROC = Some (1 / 2),
          DATA_JSON = [Entry ''1'' ''3'' 3 (Some (5 / 2)) (Some (1 / 2)) False, Comma,
                       Entry ''2'' ''0'' 0 (Some 0) (Some 0) True]\<rparr> \<and>
   GeneratePlot real_ops
     (case_option (0, False) id \<circ>
        map_of [(''3.00'', (3, True)), (''2.50'', (5 / 2, True)), (''0.50'', (1 / 2, True)),
                (''0.00'', (0, True))])
     ([''seq'', ''extra'', CHR 0xC2 # CHR 0xA0 # ''recv_time '', ''latency_ms'', ''lost'',
       ''server_proc_ms'', ''net_latency_ms''] #
       [[''1'', ''x'', ''3'', ''3.00'', ''false'', ''0.50'', ''2.50''],
        [''2'', ''y'', ''0'', ''0.00'', ''true'', ''0.00'', ''0.00'']]) =
     Inr \<lparr>TOTAL_PACKETS = 2, LOSS_PERCENT = 50, AVG_LATENCY = 3, MAX_LATENCY = 3,
          AVG_NET_LATENCY = Some (5 / 2), AVG_SERVER_PROC = Some (1 / 2),
          DATA_JSON = [Entry ''1'' ''3'' 3 (Some (5 / 2)) (Some (1 / 2)) False, Comma,
                       Entry ''2'' ''0'' 0 (Some 0) (Some 0) True]\<rparr> \<and>
   lookup_columns
      [''seq'', ''sent_time'', ''recv_time'', ''latency_ms'', ''lost'', ''server_proc_ms'',
       ''net_latency_ms''] =
     Inr \<lparr>seqIdx = 0, recvIdx = 2, latIdx = 3, lostIdx = 4, netIdx = Some 6, serverIdx = Some 5\<rparr> \<and>
   GeneratePlot real_ops
     (case_option (0, False) id \<circ>
        map_of [(''3.00'', (3, True)), (''2.50'', (5 / 2, True)), (''0.50'', (1 / 2, True)),
                (''0.00'', (0, True))])
     ([''seq'', ''lost''] # [[''1'', ''false'']]) = Inl (MissingColumn ''recv_time'') \<and>
   ''recv_time'' \<notin> TrimSpace ` set [''seq'', ''lost'']"
proof -
  let ?H = "[''seq'', ''sent_time'', ''recv_time'', ''latency_ms'', ''lost'', ''server_proc_ms'',
       ''net_latency_ms'']"
  let ?H' = "[''seq'', ''extra'', CHR 0xC2 # CHR 0xA0 # ''recv_time '', ''latency_ms'', ''lost'',
       ''server_proc_ms'', ''net_latency_ms'']"
  let ?R = "[[''1'', ''0'', ''3'', ''3.00'', ''false'', ''0.50'', ''2.50''],
        [''2'', ''5'', ''0'', ''0.00'', ''true'', ''0.00'', ''0.00'']]"
  let ?R' = "[[''1'', ''x'', ''3'', ''3.00'', ''false'', ''0.50'', ''2.50''],
        [''2'', ''y'', ''0'', ''0.00'', ''true'', ''0.00'', ''0.00'']]"
  let ?P = "(case_option (0, False) id \<circ>
        map_of [(''3.00'', (3, True)), (''2.50'', (5 / 2, True)), (''0.50'', (1 / 2, True)),
                (''0.00'', (0, True))])"
  have l: "lookup_columns ?H =
     Inr \<lparr>seqIdx = 0, recvIdx = 2, latIdx = 3, lostIdx = 4, netIdx = Some 6, serverIdx = Some 5\<rparr>"
    by (simp add: lookup_columns_def colIndex_def trim_names)
  have g: "GeneratePlot real_ops ?P (?H # ?R) =
     Inr \<lparr>TOTAL_PACKETS = 2, LOSS_PERCENT = 50, AVG_LATENCY = 3, MAX_LATENCY = 3,
          AVG_NET_LATENCY = Some (5 / 2), AVG_SERVER_PROC = Some (1 / 2),
          DATA_JSON = [Entry ''1'' ''3'' 3 (Some (5 / 2)) (Some (1 / 2)) False, Comma,
                       Entry ''2'' ''0'' 0 (Some 0) (Some 0) True]\<rparr>"
    by (simp add: GeneratePlot_def l plot_row_def plot_report_def plot_acc0_def optional_cell_def
        real_ops_def Let_def)
  have p: "distinct ([6, 5, 4, 3, 2, 1, 0] :: nat list)" "set ([6, 5, 4, 3, 2, 1, 0] :: nat list) = {..<length ?H}"
    by auto
  have d: "distinct (filter (\<lambda>n. n \<in> set read_names) (map TrimSpace ?H))"
    by (simp add: trim_names read_names_def required_names_def)
  have r: "\<forall>row\<in>set ?R. length row = length ?H"
    by simp
  have n: "length ?H' = length ?H" "length ?R' = length ?R"
    by simp_all
  have h: "\<forall>j<length ?H.
       TrimSpace (?H ! j) \<in> set read_names \<or> TrimSpace (?H' ! j) \<in> set read_names
       \<longrightarrow> TrimSpace (?H' ! j) = TrimSpace (?H ! j)"
    by (simp add: All_less_Suc trim_names read_names_def required_names_def)
  have c: "\<forall>i<length ?R. length (?R' ! i) = length (?R ! i) \<and>
       (\<forall>j<length ?H. TrimSpace (?H ! j) \<in> set read_names \<longrightarrow>
          j < length (?R ! i) \<longrightarrow> ?R' ! i ! j = ?R ! i ! j)"
    by (simp add: All_less_Suc trim_names read_names_def required_names_def)
  have m: "lookup_columns [''seq'', ''lost''] = Inl (MissingColumn ''recv_time'')"
    by (simp add: lookup_columns_def colIndex_def trim_names)
  have e: "GeneratePlot real_ops ?P ([''seq'', ''lost''] # [[''1'', ''false'']]) =
      Inl (MissingColumn ''recv_time'')"
    by (simp add: GeneratePlot_def m)
  note t = GeneratePlot_by_header_name [where perm = "[6, 5, 4, 3, 2, 1, 0]" and header = ?H
      and rows = ?R and ops = real_ops and ParseFloat = ?P and header' = ?H' and rows' = ?R']
  note u = GeneratePlot_by_header_name [where header = "[''seq'', ''lost'']"
      and rows = "[[''1'', ''false'']]" and ops = real_ops and ParseFloat = ?P]
  have 1: "GeneratePlot real_ops ?P
      (permute [6, 5, 4, 3, 2, 1, 0] ?H # map (permute [6, 5, 4, 3, 2, 1, 0]) ?R) =
      GeneratePlot real_ops ?P (?H # ?R)"
    by (rule t [THEN conjunct1, rule_format]) (intro conjI p d r)
  have 2: "GeneratePlot real_ops ?P (?H' # ?R') = GeneratePlot real_ops ?P (?H # ?R)"
    by (rule t [THEN conjunct2, THEN conjunct2, THEN conjunct2, THEN conjunct2, rule_format])
      (intro conjI n h c)
  from u [THEN conjunct2, THEN conjunct2, THEN conjunct2, THEN conjunct1, rule_format, OF e]
  have 3: "''recv_time'' \<notin> TrimSpace ` set [''seq'', ''lost'']"
    by (simp add: required_names_def)
  note 4 = trans [OF 1 g] and 5 = trans [OF 2 g]
  show ?thesis
    by (intro conjI) (fact g, fact 4, fact 5, fact l, fact e, fact 3)
qed

end
